theory Spec2Isabelle
  imports Main "HOL-Library.Word" "HOL-Library.Sublist"
begin

unbundle bit_operations_syntax

section \<open>Bytes, strings and Python slices\<close>

text \<open>
  The HWNP codec of \<^verbatim>\<open>tools/firmware-editor/firmware_editor.py\<close> works on one
  \<^verbatim>\<open>bytearray\<close> (\<^verbatim>\<open>self.raw\<close>), on \<^verbatim>\<open>bytes\<close> copies cut out of it and on
  Python strings. A byte is an 8-bit word, a Python \<^verbatim>\<open>str\<close> is the list of its code
  points (a \<^verbatim>\<open>str\<close> can hold code points that no byte holds, such as U+FFFD), and
  Python's unbounded integers are natural numbers: every integer of the codec is a length,
  an offset or an unsigned field.
\<close>

type_synonym byte = "8 word"
type_synonym bytes = "byte list"
type_synonym str = "nat list"

text \<open>A string literal of the source, as code points.\<close>

definition lit :: "string \<Rightarrow> str" where
  "lit s = map of_char s"

text \<open>
  \<^verbatim>\<open>xs[a:b]\<close> for \<^verbatim>\<open>0 <= a\<close>: both bounds are clamped to the length, so a slice
  never raises; it is shorter than \<^verbatim>\<open>b - a\<close> when the buffer ends early.
\<close>

definition slice :: "'a list \<Rightarrow> nat \<Rightarrow> nat \<Rightarrow> 'a list" where
  "slice xs a b = take (b - a) (drop a xs)"

text \<open>
  \<^verbatim>\<open>xs[a:b] = ys\<close> on a \<^verbatim>\<open>bytearray\<close>: the clamped slice is cut out and \<^verbatim>\<open>ys\<close>
  is put in its place, whatever its length. The buffer grows when the slice reaches
  past its end.
\<close>

definition slice_assign :: "'a list \<Rightarrow> nat \<Rightarrow> nat \<Rightarrow> 'a list \<Rightarrow> 'a list" where
  "slice_assign xs a b ys = take a xs @ ys @ drop (max a b) xs"

text \<open>The exceptions of the codec. The source raises \<^verbatim>\<open>ValueError\<close> at three places,
  told apart here by the place: the missing magic in \<^verbatim>\<open>_parse\<close>, the identifier string
  that is too long in \<^verbatim>\<open>set_product_ids\<close>, the payload that is too large in
  \<^verbatim>\<open>set_section_data\<close>. \<^verbatim>\<open>struct.error\<close>, \<^verbatim>\<open>IndexError\<close> and
  \<^verbatim>\<open>UnicodeEncodeError\<close> come from the library calls the codec makes.\<close>

datatype error =
    ValueError_not_hwnp
  | ValueError_pid_too_long
  | ValueError_too_large
  | StructError
  | IndexError
  | UnicodeEncodeError

definition bindE :: "error + 'a \<Rightarrow> ('a \<Rightarrow> error + 'b) \<Rightarrow> error + 'b" where
  "bindE m f = (case m of Inl e \<Rightarrow> Inl e | Inr x \<Rightarrow> f x)"

subsection \<open>The constants of the source\<close>

definition HWNP_MAGIC :: bytes where
  "HWNP_MAGIC = [0x48, 0x57, 0x4E, 0x50]"

definition SECT_DESC_START :: nat where
  "SECT_DESC_START = 0x128"

definition SECT_DESC_SIZE :: nat where
  "SECT_DESC_SIZE = 360"

definition PID_OFFSET :: nat where
  "PID_OFFSET = 0x24"

definition PID_MAX_LEN :: nat where
  "PID_MAX_LEN = SECT_DESC_START - PID_OFFSET"

subsection \<open>Library calls: struct, binascii, codecs, str methods\<close>

text \<open>\<^verbatim>\<open>struct.unpack("<I", b)[0]\<close> and \<^verbatim>\<open>struct.unpack(">I", b)[0]\<close>: the buffer must
  hold exactly four bytes.\<close>

fun unpack_le32 :: "bytes \<Rightarrow> error + nat" where
  "unpack_le32 [b0, b1, b2, b3] =
     Inr (unat b0 + 256 * unat b1 + 65536 * unat b2 + 16777216 * unat b3)"
| "unpack_le32 _ = Inl StructError"

fun unpack_be32 :: "bytes \<Rightarrow> error + nat" where
  "unpack_be32 [b0, b1, b2, b3] =
     Inr (16777216 * unat b0 + 65536 * unat b1 + 256 * unat b2 + unat b3)"
| "unpack_be32 _ = Inl StructError"

text \<open>The four bytes \<^verbatim>\<open>struct.pack("<I", v)\<close> writes for \<^verbatim>\<open>0 <= v < 2**32\<close>.\<close>

definition pack_le32 :: "nat \<Rightarrow> bytes" where
  "pack_le32 v = [of_nat v, of_nat (v div 256), of_nat (v div 65536), of_nat (v div 16777216)]"

text \<open>\<^verbatim>\<open>struct.pack_into("<I", buf, off, v)\<close>: raises when the value does not fit 32 bits or
  the buffer has no four bytes at \<^verbatim>\<open>off\<close>; writes in place otherwise.\<close>

definition pack_into_le32 :: "bytes \<Rightarrow> nat \<Rightarrow> nat \<Rightarrow> error + bytes" where
  "pack_into_le32 buf off v =
     (if v \<ge> 2 ^ 32 \<or> length buf < off + 4 then Inl StructError
      else Inr (take off buf @ pack_le32 v @ drop (off + 4) buf))"

text \<open>\<^verbatim>\<open>binascii.crc32\<close>: the reflected CRC-32 with polynomial \<^verbatim>\<open>0xEDB88320\<close>, initial
  value and final xor \<^verbatim>\<open>0xFFFFFFFF\<close>, one bit at a time.\<close>

definition crc32_bit :: "32 word \<Rightarrow> 32 word" where
  "crc32_bit c = (if c AND 1 = 1 then drop_bit 1 c XOR 0xEDB88320 else drop_bit 1 c)"

definition crc32_byte :: "32 word \<Rightarrow> byte \<Rightarrow> 32 word" where
  "crc32_byte c b = (crc32_bit ^^ 8) (c XOR ucast b)"

definition binascii_crc32 :: "bytes \<Rightarrow> nat" where
  "binascii_crc32 data = unat (foldl crc32_byte 0xFFFFFFFF data XOR 0xFFFFFFFF)"

text \<open>The source's own \<^verbatim>\<open>crc32\<close> (lines 43-45).\<close>

definition crc32 :: "bytes \<Rightarrow> nat" where
  "crc32 data = binascii_crc32 data AND 0xFFFFFFFF"

text \<open>\<^verbatim>\<open>b.decode("ascii", errors="replace")\<close>: every byte above 0x7F becomes U+FFFD.\<close>

definition decode_ascii_replace :: "bytes \<Rightarrow> str" where
  "decode_ascii_replace bs = map (\<lambda>b. if unat b < 0x80 then unat b else 0xFFFD) bs"

text \<open>\<^verbatim>\<open>s.encode("ascii")\<close>: raises on a code point above 0x7F.\<close>

definition encode_ascii :: "str \<Rightarrow> error + bytes" where
  "encode_ascii s = (if \<forall>c \<in> set s. c < 0x80 then Inr (map of_nat s) else Inl UnicodeEncodeError)"

text \<open>\<^verbatim>\<open>b.decode("utf-8")\<close>, strict: the well-formed byte sequences of the Unicode
  standard (no overlong form, no surrogate, nothing above U+10FFFF); \<open>None\<close> is
  \<^verbatim>\<open>UnicodeDecodeError\<close>.\<close>

definition is_cont :: "byte \<Rightarrow> bool" where
  "is_cont b = (0x80 \<le> unat b \<and> unat b \<le> 0xBF)"

definition cont :: "byte \<Rightarrow> nat" where
  "cont b = unat b - 0x80"

fun utf8_decode :: "bytes \<Rightarrow> str option" where
  "utf8_decode [] = Some []"
| "utf8_decode (b0 # bs) =
     (let v = unat b0 in
      if v < 0x80 then map_option ((#) v) (utf8_decode bs)
      else if 0xC2 \<le> v \<and> v \<le> 0xDF then
        (case bs of
           b1 # r \<Rightarrow>
             if is_cont b1
             then map_option ((#) ((v - 0xC0) * 64 + cont b1)) (utf8_decode r)
             else None
         | _ \<Rightarrow> None)
      else if 0xE0 \<le> v \<and> v \<le> 0xEF then
        (case bs of
           b1 # b2 # r \<Rightarrow>
             if (if v = 0xE0 then 0xA0 else 0x80) \<le> unat b1
                \<and> unat b1 \<le> (if v = 0xED then 0x9F else 0xBF) \<and> is_cont b2
             then map_option ((#) ((v - 0xE0) * 4096 + cont b1 * 64 + cont b2)) (utf8_decode r)
             else None
         | _ \<Rightarrow> None)
      else if 0xF0 \<le> v \<and> v \<le> 0xF4 then
        (case bs of
           b1 # b2 # b3 # r \<Rightarrow>
             if (if v = 0xF0 then 0x90 else 0x80) \<le> unat b1
                \<and> unat b1 \<le> (if v = 0xF4 then 0x8F else 0xBF) \<and> is_cont b2 \<and> is_cont b3
             then map_option
                    ((#) ((v - 0xF0) * 262144 + cont b1 * 4096 + cont b2 * 64 + cont b3))
                    (utf8_decode r)
             else None
         | _ \<Rightarrow> None)
      else None)"

text \<open>\<^verbatim>\<open>s.split(sep)\<close> for a one-character separator: every occurrence splits, and the
  empty string gives one empty fragment.\<close>

fun str_split :: "nat \<Rightarrow> str \<Rightarrow> str list" where
  "str_split sep [] = [[]]"
| "str_split sep (c # cs) =
     (if c = sep then [] # str_split sep cs
      else (case str_split sep cs of w # ws \<Rightarrow> (c # w) # ws | [] \<Rightarrow> [[c]]))"

text \<open>\<^verbatim>\<open>sep.join(xs)\<close>.\<close>

fun str_join :: "str \<Rightarrow> str list \<Rightarrow> str" where
  "str_join sep [] = []"
| "str_join sep [x] = x"
| "str_join sep (x # y # ys) = x @ sep @ str_join sep (y # ys)"

text \<open>\<^verbatim>\<open>s.replace(pat, "")\<close> for a non-empty \<^verbatim>\<open>pat\<close>: the occurrences are found
  from the left and do not overlap.\<close>

fun str_remove :: "str \<Rightarrow> str \<Rightarrow> str" where
  "str_remove pat [] = []"
| "str_remove pat (c # cs) =
     (if pat \<noteq> [] \<and> prefix pat (c # cs) then str_remove pat (drop (length pat - 1) cs)
      else c # str_remove pat cs)"

text \<open>\<^verbatim>\<open>xs.index(0)\<close> where a zero byte exists: the position of the first one.\<close>

definition index0 :: "bytes \<Rightarrow> nat" where
  "index0 xs = length (takeWhile (\<lambda>b. b \<noteq> 0) xs)"

text \<open>\<^verbatim>\<open>f"0x{b:02X}"\<close>: \<^verbatim>\<open>0x\<close> and two uppercase hexadecimal digits.\<close>

definition hex_upper :: "nat \<Rightarrow> nat" where
  "hex_upper d = (if d < 10 then 48 + d else 55 + d)"

definition fmt_0x02X :: "byte \<Rightarrow> str" where
  "fmt_0x02X b = lit ''0x'' @ [hex_upper (unat b div 16), hex_upper (unat b mod 16)]"

section \<open>The parsed image\<close>

datatype content_type = Xml | Shell | Flag | Text | Binary

record HWNPSection =
  index :: nat
  item_crc :: nat
  stored_offset :: nat
  data_offset :: nat
  data_size :: nat
  path :: str
  file_name :: str
  label :: str
  data :: bytes
  content_type :: content_type
  text_content :: "str option"
  desc_raw :: bytes

record HWNPFirmware =
  raw :: bytes
  payload_size :: nat
  head_crc :: nat
  head_len :: nat
  file_crc :: nat
  item_num :: nat
  version :: nat
  item_desc_size :: nat
  product_ids :: "str list"
  computed_crc :: nat
  crc_valid :: bool
  sections :: "HWNPSection list"

text \<open>The content type of a section and its text view (lines 127-154 of \<^verbatim>\<open>_parse\<close>):
  the first matching branch wins.\<close>

definition classify :: "str \<Rightarrow> nat \<Rightarrow> bytes \<Rightarrow> content_type \<times> str option" where
  "classify fname dsize sect_data =
     (if suffix (lit ''.sh'') fname then
        (case utf8_decode sect_data of Some t \<Rightarrow> (Shell, Some t) | None \<Rightarrow> (Binary, None))
      else if suffix (lit ''.xml'') fname then
        (case utf8_decode sect_data of Some t \<Rightarrow> (Xml, Some t) | None \<Rightarrow> (Binary, None))
      else if dsize \<le> 4 then
        (Flag, Some (str_join (lit '' '') (map fmt_0x02X sect_data)))
      else
        (let is_text = list_all (\<lambda>b. b = 0 \<or> (0x09 \<le> unat b \<and> unat b \<le> 0x0D)
                                         \<or> (0x20 \<le> unat b \<and> unat b \<le> 0x7E)) sect_data
         in if is_text \<and> dsize < 65536 then (Text, utf8_decode sect_data)
            else (Binary, None)))"

text \<open>One turn of the loop over the descriptors (lines 107-161): descriptor \<open>i\<close> is read
  at \<^verbatim>\<open>SECT_DESC_START + i * SECT_DESC_SIZE\<close>, its payload at the running offset.\<close>

definition parse_section :: "bytes \<Rightarrow> nat \<Rightarrow> nat \<Rightarrow> error + HWNPSection" where
  "parse_section d i doff =
     (let desc_off = SECT_DESC_START + i * SECT_DESC_SIZE;
          draw = slice d desc_off (desc_off + SECT_DESC_SIZE)
      in bindE (unpack_le32 (slice d desc_off (desc_off + 4))) (\<lambda>icrc.
         bindE (unpack_le32 (slice d (desc_off + 4) (desc_off + 8))) (\<lambda>soff.
         bindE (unpack_le32 (slice d (desc_off + 8) (desc_off + 12))) (\<lambda>dsize.
           let path_bytes = slice d (desc_off + 12) (desc_off + 12 + 256);
               path_end = (if 0 \<in> set path_bytes then index0 path_bytes else 256);
               pth = decode_ascii_replace (slice path_bytes 0 path_end);
               label_bytes = slice d (desc_off + 268) (desc_off + 268 + 92);
               label_end = (if 0 \<in> set label_bytes then index0 label_bytes else 92);
               lbl = decode_ascii_replace (slice label_bytes 0 label_end);
               sect_data = slice d doff (doff + dsize);
               fname = str_remove (lit ''file:'') pth;
               ct = classify fname dsize sect_data
           in Inr \<lparr> index = i, item_crc = icrc, stored_offset = soff, data_offset = doff,
                    data_size = dsize, path = pth, file_name = fname, label = lbl,
                    data = sect_data, content_type = fst ct, text_content = snd ct,
                    desc_raw = draw \<rparr>))))"

text \<open>The running offset after a section (lines 163-165).\<close>

definition next_offset :: "nat \<Rightarrow> nat \<Rightarrow> nat" where
  "next_offset doff dsize =
     (let off = doff + dsize in if off mod 4 \<noteq> 0 then off + (4 - off mod 4) else off)"

text \<open>The loop \<^verbatim>\<open>for i in range(self.item_num)\<close>: \<open>n\<close> turns are left, the next index is
  \<open>i\<close>, the running offset is \<open>doff\<close>.\<close>

fun parse_sections :: "bytes \<Rightarrow> nat \<Rightarrow> nat \<Rightarrow> nat \<Rightarrow> error + HWNPSection list" where
  "parse_sections d 0 i doff = Inr []"
| "parse_sections d (Suc n) i doff =
     bindE (parse_section d i doff) (\<lambda>s.
     bindE (parse_sections d n (i + 1) (next_offset doff (data_size s))) (\<lambda>rest.
       Inr (s # rest)))"

text \<open>The device identifiers (lines 93-96): the window ends at its first zero byte, found
  by \<^verbatim>\<open>data.index(0, PID_OFFSET)\<close>, or at its capacity; the string is split at
  \<^verbatim>\<open>|\<close> and the empty fragments are dropped.\<close>

definition decode_product_ids :: "bytes \<Rightarrow> str list" where
  "decode_product_ids d =
     (let pid_end = (if 0 \<in> set (slice d PID_OFFSET (PID_OFFSET + PID_MAX_LEN))
                     then PID_OFFSET + index0 (drop PID_OFFSET d)
                     else PID_OFFSET + PID_MAX_LEN);
          pid_str = decode_ascii_replace (slice d PID_OFFSET pid_end)
      in filter (\<lambda>s. s \<noteq> []) (str_split 0x7C pid_str))"

text \<open>\<^verbatim>\<open>HWNPFirmware._parse\<close> (lines 80-165), on the bytes read from the file.\<close>

definition parse :: "bytes \<Rightarrow> error + HWNPFirmware" where
  "parse d =
     (if slice d 0 4 \<noteq> HWNP_MAGIC then Inl ValueError_not_hwnp
      else
        bindE (unpack_be32 (slice d 0x04 0x08)) (\<lambda>psize.
        bindE (unpack_le32 (slice d 0x08 0x0C)) (\<lambda>hcrc.
        bindE (unpack_le32 (slice d 0x0C 0x10)) (\<lambda>hlen.
        bindE (unpack_le32 (slice d 0x10 0x14)) (\<lambda>fcrc.
        bindE (unpack_le32 (slice d 0x14 0x18)) (\<lambda>inum_field.
        bindE (unpack_le32 (slice d 0x18 0x1C)) (\<lambda>ver.
        bindE (unpack_le32 (slice d 0x1C 0x20)) (\<lambda>dsz.
          let inum = inum_field AND 0xFF;
              pids = decode_product_ids d;
              ccrc = crc32 (drop 0x0C d)
          in bindE (parse_sections d inum 0 (SECT_DESC_START + inum * SECT_DESC_SIZE))
               (\<lambda>secs.
                  Inr \<lparr> raw = d, payload_size = psize, head_crc = hcrc, head_len = hlen,
                         file_crc = fcrc, item_num = inum, version = ver,
                         item_desc_size = dsz, product_ids = pids, computed_crc = ccrc,
                         crc_valid = (ccrc = hcrc), sections = secs \<rparr>)))))))))"

section \<open>The mutations\<close>

text \<open>
  A method that mutates the image returns its result (an exception, as \<open>Inl\<close>, or
  nothing) together with the image it leaves behind: what an exception leaves is the
  image as it was when the exception was raised.
\<close>

text \<open>\<^verbatim>\<open>HWNPFirmware.set_product_ids\<close> (lines 167-175).\<close>

definition set_product_ids :: "str list \<Rightarrow> HWNPFirmware \<Rightarrow> (error + unit) \<times> HWNPFirmware" where
  "set_product_ids ids fw =
     (let pid_str = str_join (lit ''|'') ids @ lit ''|'' in
      case encode_ascii pid_str of
        Inl e \<Rightarrow> (Inl e, fw)
      | Inr pid_bytes \<Rightarrow>
          if length pid_bytes > PID_MAX_LEN then (Inl ValueError_pid_too_long, fw)
          else
            let raw1 = slice_assign (raw fw) PID_OFFSET (PID_OFFSET + PID_MAX_LEN)
                         (replicate PID_MAX_LEN 0);
                raw2 = slice_assign raw1 PID_OFFSET (PID_OFFSET + length pid_bytes) pid_bytes
            in (Inr (), fw\<lparr>raw := raw2, product_ids := ids\<rparr>))"

text \<open>\<^verbatim>\<open>HWNPFirmware.set_section_data\<close> (lines 177-195). \<^verbatim>\<open>self.sections[idx]\<close> is
  Python's list indexing: a negative index counts from the end, an index out of range
  raises. The section object is mutated in place, which is an update of the list at
  its position.\<close>

definition set_section_data ::
    "int \<Rightarrow> bytes \<Rightarrow> HWNPFirmware \<Rightarrow> (error + unit) \<times> HWNPFirmware" where
  "set_section_data idx new_data fw =
     (let n = int (length (sections fw));
          j = (if idx < 0 then idx + n else idx)
      in if j < 0 \<or> n \<le> j then (Inl IndexError, fw)
         else
           let k = nat j;
               sec = sections fw ! k
           in if length new_data \<noteq> data_size sec \<and> \<not> length new_data < data_size sec
              then (Inl ValueError_too_large, fw)
              else
                let padded = (if length new_data \<noteq> data_size sec
                              then new_data @ replicate (data_size sec - length new_data) 0
                              else new_data);
                    raw' = slice_assign (raw fw) (data_offset sec)
                             (data_offset sec + data_size sec) padded;
                    sec1 = sec\<lparr>data := padded\<rparr>;
                    sec2 = (if content_type sec \<in> {Xml, Shell, Text}
                            then (case utf8_decode padded of
                                    Some t \<Rightarrow> sec1\<lparr>text_content := Some t\<rparr>
                                  | None \<Rightarrow> sec1)
                            else sec1)
                in (Inr (), fw\<lparr>raw := raw', sections := (sections fw)[k := sec2]\<rparr>))"

section \<open>The integrity patcher\<close>

subsection \<open>The regular expression of \<^verbatim>\<open>fix_signinfo\<close>\<close>

text \<open>
  \<^verbatim>\<open>re.finditer(r"([0-9a-f]{64})\s+(/[^\n]+)", sig_text)\<close>. A match at a position is
  64 lowercase hexadecimal digits, a run of whitespace, a slash and a run of characters
  other than the newline. Both runs are greedy and neither can give a character back:
  the whitespace run must be followed by the slash, which is no whitespace, and nothing
  follows the last run. \<^verbatim>\<open>\s\<close> on a \<^verbatim>\<open>str\<close> pattern and \<^verbatim>\<open>str.strip()\<close> use
  Python's Unicode whitespace.
\<close>

definition is_hex_lower :: "nat \<Rightarrow> bool" where
  "is_hex_lower c = ((0x30 \<le> c \<and> c \<le> 0x39) \<or> (0x61 \<le> c \<and> c \<le> 0x66))"

definition is_space :: "nat \<Rightarrow> bool" where
  "is_space c = ((0x09 \<le> c \<and> c \<le> 0x0D) \<or> (0x1C \<le> c \<and> c \<le> 0x20) \<or> c = 0x85 \<or> c = 0xA0
                 \<or> c = 0x1680 \<or> (0x2000 \<le> c \<and> c \<le> 0x200A) \<or> c = 0x2028 \<or> c = 0x2029
                 \<or> c = 0x202F \<or> c = 0x205F \<or> c = 0x3000)"

text \<open>The match that starts at the head of \<open>s\<close>, if there is one: its length and its
  second group.\<close>

definition match_here :: "str \<Rightarrow> (nat \<times> str) option" where
  "match_here s =
     (let h = take 64 s in
      if length h = 64 \<and> list_all is_hex_lower h then
        (let r = drop 64 s;
             ws = takeWhile is_space r
         in if ws \<noteq> [] then
              (case dropWhile is_space r of
                 c # r' \<Rightarrow>
                   (let p = takeWhile (\<lambda>x. x \<noteq> 0x0A) r'
                    in if c = 0x2F \<and> p \<noteq> [] then Some (64 + length ws + 1 + length p, c # p)
                       else None)
               | [] \<Rightarrow> None)
            else None)
      else None)"

text \<open>The matches from the left, none overlapping another: the start of the first group
  and the second group of each. \<open>pos\<close> is the position of the head of the text that is
  left. A match is at least 67 characters long, so dropping its length from the text is
  dropping one less from the tail.\<close>

fun finditer :: "nat \<Rightarrow> str \<Rightarrow> (nat \<times> str) list" where
  "finditer pos [] = []"
| "finditer pos (c # cs) =
     (case match_here (c # cs) of
        Some (len, g2) \<Rightarrow> (pos, g2) # finditer (pos + len) (drop (len - 1) cs)
      | None \<Rightarrow> finditer (pos + 1) cs)"

text \<open>\<^verbatim>\<open>s.strip()\<close>.\<close>

definition str_strip :: "str \<Rightarrow> str" where
  "str_strip s = rev (dropWhile is_space (rev (dropWhile is_space s)))"

subsection \<open>\<^verbatim>\<open>hashlib.sha256\<close>\<close>

text \<open>SHA-256 as FIPS 180-4 defines it, on bytes; \<^verbatim>\<open>hexdigest()\<close> writes the eight words
  of the digest as 64 lowercase hexadecimal digits.\<close>

definition sha256_K :: "32 word list" where
  "sha256_K =
     [1116352408, 1899447441, 3049323471, 3921009573, 961987163, 1508970993,
      2453635748, 2870763221, 3624381080, 310598401, 607225278, 1426881987,
      1925078388, 2162078206, 2614888103, 3248222580, 3835390401, 4022224774,
      264347078, 604807628, 770255983, 1249150122, 1555081692, 1996064986,
      2554220882, 2821834349, 2952996808, 3210313671, 3336571891, 3584528711,
      113926993, 338241895, 666307205, 773529912, 1294757372, 1396182291,
      1695183700, 1986661051, 2177026350, 2456956037, 2730485921, 2820302411,
      3259730800, 3345764771, 3516065817, 3600352804, 4094571909, 275423344,
      430227734, 506948616, 659060556, 883997877, 958139571, 1322822218,
      1537002063, 1747873779, 1955562222, 2024104815, 2227730452, 2361852424,
      2428436474, 2756734187, 3204031479, 3329325298]"

definition sha256_H0 :: "32 word list" where
  "sha256_H0 =
     [1779033703, 3144134277, 1013904242, 2773480762,
      1359893119, 2600822924, 528734635, 1541459225]"

definition sha256_pad :: "bytes \<Rightarrow> bytes" where
  "sha256_pad m =
     (let bits = (of_nat (8 * length m) :: 64 word)
      in m @ [0x80] @ replicate ((119 - length m mod 64) mod 64) 0
           @ map (\<lambda>i. ucast (drop_bit (8 * (7 - i)) bits)) [0..<8])"

fun be_words :: "bytes \<Rightarrow> 32 word list" where
  "be_words (b0 # b1 # b2 # b3 # bs) =
     (push_bit 24 (ucast b0) OR push_bit 16 (ucast b1) OR push_bit 8 (ucast b2) OR ucast b3)
       # be_words bs"
| "be_words _ = []"

text \<open>The message schedule: \<open>n\<close> more words after the ones in \<open>w\<close>.\<close>

fun sha256_schedule :: "nat \<Rightarrow> 32 word list \<Rightarrow> 32 word list" where
  "sha256_schedule 0 w = w"
| "sha256_schedule (Suc n) w =
     (let t = length w;
          w15 = w ! (t - 15);
          w2 = w ! (t - 2);
          s0 = word_rotr 7 w15 XOR word_rotr 18 w15 XOR drop_bit 3 w15;
          s1 = word_rotr 17 w2 XOR word_rotr 19 w2 XOR drop_bit 10 w2
      in sha256_schedule n (w @ [w ! (t - 16) + s0 + w ! (t - 7) + s1]))"

text \<open>One round on the working variables \<open>a\<close> to \<open>h\<close>, with the round constant and the
  schedule word.\<close>

fun sha256_round :: "32 word list \<Rightarrow> 32 word \<times> 32 word \<Rightarrow> 32 word list" where
  "sha256_round [a, b, c, d, e, f, g, h] (k, w) =
     (let S1 = word_rotr 6 e XOR word_rotr 11 e XOR word_rotr 25 e;
          ch = (e AND f) XOR (NOT e AND g);
          t1 = h + S1 + ch + k + w;
          S0 = word_rotr 2 a XOR word_rotr 13 a XOR word_rotr 22 a;
          mj = (a AND b) XOR (a AND c) XOR (b AND c);
          t2 = S0 + mj
      in [t1 + t2, a, b, c, d + t1, e, f, g])"
| "sha256_round st _ = st"

definition sha256_block :: "32 word list \<Rightarrow> bytes \<Rightarrow> 32 word list" where
  "sha256_block hs blk =
     map2 (+) hs (foldl sha256_round hs (zip sha256_K (sha256_schedule 48 (be_words blk))))"

fun sha256_blocks :: "nat \<Rightarrow> 32 word list \<Rightarrow> bytes \<Rightarrow> 32 word list" where
  "sha256_blocks 0 hs m = hs"
| "sha256_blocks (Suc n) hs m = sha256_blocks n (sha256_block hs (take 64 m)) (drop 64 m)"

definition hex_lower :: "nat \<Rightarrow> byte" where
  "hex_lower d = of_nat (if d < 10 then 48 + d else 87 + d)"

definition hex_word :: "32 word \<Rightarrow> bytes" where
  "hex_word w = map (\<lambda>i. hex_lower (unat (drop_bit (4 * (7 - i)) w AND 15))) [0..<8]"

text \<open>\<^verbatim>\<open>hashlib.sha256(m).hexdigest().encode("ascii")\<close>.\<close>

definition sha256_hexdigest :: "bytes \<Rightarrow> bytes" where
  "sha256_hexdigest m =
     (let p = sha256_pad m
      in concat (map hex_word (take 8 (sha256_blocks (length p div 64) sha256_H0 p))))"

subsection \<open>\<^verbatim>\<open>fix_signinfo\<close>, \<^verbatim>\<open>recalculate_crc\<close> and \<^verbatim>\<open>save\<close>\<close>

text \<open>The position of the first element that satisfies \<open>P\<close>: a \<^verbatim>\<open>for\<close> loop that skips
  with \<^verbatim>\<open>continue\<close> and leaves with \<^verbatim>\<open>break\<close> after its first full turn.\<close>

fun first_index :: "('a \<Rightarrow> bool) \<Rightarrow> 'a list \<Rightarrow> nat option" where
  "first_index P [] = None"
| "first_index P (x # xs) = (if P x then Some 0 else map_option Suc (first_index P xs))"

text \<open>One turn of the loop over the matches (lines 219-229): the first section whose path
  without \<^verbatim>\<open>file:\<close> is the path of the line gives the digest of its bytes in the
  buffer, written over the 64 digits of the line.\<close>

definition patch_hash :: "HWNPSection list \<Rightarrow> nat \<Rightarrow> bytes \<Rightarrow> nat \<times> str \<Rightarrow> bytes" where
  "patch_hash secs sig_off rw m =
     (let file_path = str_strip (snd m) in
      case find (\<lambda>sec. str_remove (lit ''file:'') (path sec) = file_path) secs of
        None \<Rightarrow> rw
      | Some sec \<Rightarrow>
          (let new_hash = sha256_hexdigest
                 (slice rw (data_offset sec) (data_offset sec + data_size sec));
               start = sig_off + fst m
           in slice_assign rw start (start + 64) new_hash))"

text \<open>\<^verbatim>\<open>HWNPFirmware.fix_signinfo\<close> (lines 197-232).\<close>

definition fix_signinfo :: "HWNPFirmware \<Rightarrow> HWNPFirmware" where
  "fix_signinfo fw =
     (case first_index (\<lambda>s. sublist (lit ''signinfo'') (path s)) (sections fw) of
        None \<Rightarrow> fw
      | Some k \<Rightarrow>
          (let sec = sections fw ! k;
               sig_off = data_offset sec;
               sig_size = data_size sec;
               raw1 = slice_assign (raw fw) sig_off (sig_off + 60) (replicate 60 0);
               sig_text = decode_ascii_replace (slice raw1 sig_off (sig_off + sig_size));
               raw2 = foldl (patch_hash (sections fw) sig_off) raw1 (finditer 0 sig_text)
           in fw\<lparr>raw := raw2,
                  sections := (sections fw)
                    [k := sec\<lparr>data := slice raw2 sig_off (sig_off + sig_size)\<rparr>]\<rparr>))"

text \<open>\<^verbatim>\<open>HWNPFirmware.recalculate_crc\<close> (lines 234-240).\<close>

definition recalculate_crc :: "HWNPFirmware \<Rightarrow> (error + unit) \<times> HWNPFirmware" where
  "recalculate_crc fw =
     (let new_crc = crc32 (drop 0x0C (raw fw)) in
      case pack_into_le32 (raw fw) 0x08 new_crc of
        Inl e \<Rightarrow> (Inl e, fw)
      | Inr raw' \<Rightarrow>
          (Inr (), fw\<lparr>raw := raw', head_crc := new_crc, computed_crc := new_crc,
                       crc_valid := True\<rparr>))"

text \<open>\<^verbatim>\<open>HWNPFirmware.save\<close> (lines 242-247): the result is the bytes written to the file.
  Failures of the file system are outside the model.\<close>

definition save :: "HWNPFirmware \<Rightarrow> (error + bytes) \<times> HWNPFirmware" where
  "save fw =
     (case recalculate_crc (fix_signinfo fw) of
        (Inl e, fw') \<Rightarrow> (Inl e, fw')
      | (Inr u, fw') \<Rightarrow> (Inr (raw fw'), fw'))"

section \<open>Definitions that support the proofs\<close>

text \<open>The value \<^verbatim>\<open>struct.unpack\<close> reads at an offset of a buffer that is long enough.\<close>

definition le32_at :: "bytes \<Rightarrow> nat \<Rightarrow> nat" where
  "le32_at d a = unat (d ! a) + 256 * unat (d ! (a + 1)) + 65536 * unat (d ! (a + 2)) + 16777216 * unat (d ! (a + 3))"

text \<open>The padding after a section: the distance from its end to the next multiple of 4.\<close>

definition padding :: "HWNPSection \<Rightarrow> nat" where
  "padding s = (4 - (data_offset s + data_size s) mod 4) mod 4"

definition be32_at :: "bytes \<Rightarrow> nat \<Rightarrow> nat" where
  "be32_at d a = 16777216 * unat (d ! a) + 65536 * unat (d ! (a + 1)) + 256 * unat (d ! (a + 2)) + unat (d ! (a + 3))"

subsection \<open>An example image\<close>

text \<open>A header with two identifiers, two descriptors and their payloads: an XML section of
  three bytes that are not UTF-8 (and one byte of padding), and a two-byte flag section.\<close>

definition ex_header :: bytes where
  "ex_header = [0x48, 0x57, 0x4E, 0x50,  0, 0, 0, 0x10,  0x78, 0x56, 0x34, 0x12,  0x28, 1, 0, 0,
                0, 0, 0, 0,  2, 0, 0, 0,  1, 0, 0, 0,  0x68, 1, 0, 0,  0, 0, 0, 0]"

definition ex_pids :: bytes where
  "ex_pids = [0x41, 0x7C, 0x42, 0x7C] @ replicate 256 0"

definition ex_desc0 :: bytes where
  "ex_desc0 = [0, 0, 0, 0,  0, 0, 0, 0,  3, 0, 0, 0]
      @ [0x66, 0x69, 0x6C, 0x65, 0x3A, 0x2F, 0x61, 0x2E, 0x78, 0x6D, 0x6C] @ replicate 245 0
      @ [0x58] @ replicate 91 0"

definition ex_desc1 :: bytes where
  "ex_desc1 = [0, 0, 0, 0,  0, 0, 0, 0,  2, 0, 0, 0]
      @ [0x66, 0x6C, 0x61, 0x67] @ replicate 252 0
      @ [0x46] @ replicate 91 0"

definition ex_payload :: bytes where
  "ex_payload = [0x3C, 0xFF, 0x3E, 0x00,  0x01, 0xAB]"

definition ex_image :: bytes where
  "ex_image = ex_header @ ex_pids @ ex_desc0 @ ex_desc1 @ ex_payload"

definition ex_sec0 :: HWNPSection where
  "ex_sec0 = \<lparr> index = 0, item_crc = 0, stored_offset = 0, data_offset = 1016, data_size = 3,
      path = lit ''file:/a.xml'', file_name = lit ''/a.xml'', label = lit ''X'',
      data = [0x3C, 0xFF, 0x3E], content_type = Binary, text_content = None,
      desc_raw = ex_desc0 \<rparr>"

definition ex_sec1 :: HWNPSection where
  "ex_sec1 = \<lparr> index = 1, item_crc = 0, stored_offset = 0, data_offset = 1020, data_size = 2,
      path = lit ''flag'', file_name = lit ''flag'', label = lit ''F'',
      data = [0x01, 0xAB], content_type = Flag, text_content = Some (lit ''0x01 0xAB''),
      desc_raw = ex_desc1 \<rparr>"

definition ex_fw :: HWNPFirmware where
  "ex_fw = \<lparr> raw = ex_image, payload_size = 16, head_crc = 0x12345678, head_len = 296,
      file_crc = 0, item_num = 2, version = 1, item_desc_size = 360,
      product_ids = [lit ''A'', lit ''B''],
      computed_crc = crc32 (drop 12 ex_image),
      crc_valid = (crc32 (drop 12 ex_image) = 0x12345678),
      sections = [ex_sec0, ex_sec1] \<rparr>"

text \<open>A second image, with one section: its path is \<^verbatim>\<open>a.xmlfile:\<close>, which ends with no
  extension until \<^verbatim>\<open>file:\<close> is removed from it; its payload is the two letters
  \<^verbatim>\<open>ab\<close>.\<close>

definition ex2_header :: bytes where
  "ex2_header = [0x48, 0x57, 0x4E, 0x50,  0, 0, 0, 0x10,  0x78, 0x56, 0x34, 0x12,  0x28, 1, 0, 0,
                 0, 0, 0, 0,  1, 0, 0, 0,  1, 0, 0, 0,  0x68, 1, 0, 0,  0, 0, 0, 0]"

definition ex2_desc0 :: bytes where
  "ex2_desc0 = [0, 0, 0, 0,  0, 0, 0, 0,  2, 0, 0, 0]
      @ [0x61, 0x2E, 0x78, 0x6D, 0x6C, 0x66, 0x69, 0x6C, 0x65, 0x3A] @ replicate 246 0
      @ [0x58] @ replicate 91 0"

definition ex2_payload :: bytes where
  "ex2_payload = [0x61, 0x62]"

definition ex2_image :: bytes where
  "ex2_image = ex2_header @ ex_pids @ ex2_desc0 @ ex2_payload"

definition ex2_sec0 :: HWNPSection where
  "ex2_sec0 = \<lparr> index = 0, item_crc = 0, stored_offset = 0, data_offset = 656, data_size = 2,
      path = lit ''a.xmlfile:'', file_name = lit ''a.xml'', label = lit ''X'',
      data = [0x61, 0x62], content_type = Xml, text_content = Some (lit ''ab''),
      desc_raw = ex2_desc0 \<rparr>"

definition ex2_fw :: HWNPFirmware where
  "ex2_fw = \<lparr> raw = ex2_image, payload_size = 16, head_crc = 0x12345678, head_len = 296,
      file_crc = 0, item_num = 1, version = 1, item_desc_size = 360,
      product_ids = [lit ''A'', lit ''B''],
      computed_crc = crc32 (drop 12 ex2_image),
      crc_valid = (crc32 (drop 12 ex2_image) = 0x12345678),
      sections = [ex2_sec0] \<rparr>"

text \<open>The first example image cut off at the end of its descriptor table: it still parses,
  with two sections whose payloads are empty.\<close>

definition tr_image :: bytes where
  "tr_image = ex_header @ ex_pids @ ex_desc0 @ ex_desc1"

definition tr_sec0 :: HWNPSection where
  "tr_sec0 = \<lparr> index = 0, item_crc = 0, stored_offset = 0, data_offset = 1016, data_size = 3,
      path = lit ''file:/a.xml'', file_name = lit ''/a.xml'', label = lit ''X'',
      data = [], content_type = Xml, text_content = Some [],
      desc_raw = ex_desc0 \<rparr>"

definition tr_sec1 :: HWNPSection where
  "tr_sec1 = \<lparr> index = 1, item_crc = 0, stored_offset = 0, data_offset = 1020, data_size = 2,
      path = lit ''flag'', file_name = lit ''flag'', label = lit ''F'',
      data = [], content_type = Flag, text_content = Some [],
      desc_raw = ex_desc1 \<rparr>"

definition tr_fw :: HWNPFirmware where
  "tr_fw = \<lparr> raw = tr_image, payload_size = 16, head_crc = 0x12345678, head_len = 296,
      file_crc = 0, item_num = 2, version = 1, item_desc_size = 360,
      product_ids = [lit ''A'', lit ''B''],
      computed_crc = crc32 (drop 12 tr_image),
      crc_valid = (crc32 (drop 12 tr_image) = 0x12345678),
      sections = [tr_sec0, tr_sec1] \<rparr>"

text \<open>An image with a manifest. The paths of both sections contain \<^verbatim>\<open>signinfo\<close>. Section 0,
  \<^verbatim>\<open>file:/signinfo\<close>, has 210 bytes: a header of 60 bytes, then two lines, 64 digits \<^verbatim>\<open>0\<close>,
  a space and the path \<^verbatim>\<open>/signinfo2\<close>, and 64 digits \<^verbatim>\<open>1\<close>, a space and the path
  \<^verbatim>\<open>/signinfo\<close> of the manifest itself. After two bytes of padding comes section 1,
  \<^verbatim>\<open>file:/signinfo2\<close>, with the two bytes \<^verbatim>\<open>hi\<close>.\<close>

definition mf_desc0 :: bytes where
  "mf_desc0 = [0, 0, 0, 0,  0, 0, 0, 0,  0xD2, 0, 0, 0]
      @ [0x66, 0x69, 0x6C, 0x65, 0x3A, 0x2F, 0x73, 0x69, 0x67, 0x6E, 0x69, 0x6E, 0x66, 0x6F]
      @ replicate 242 0
      @ [0x53] @ replicate 91 0"

definition mf_desc1 :: bytes where
  "mf_desc1 = [0, 0, 0, 0,  0, 0, 0, 0,  2, 0, 0, 0]
      @ [0x66, 0x69, 0x6C, 0x65, 0x3A, 0x2F, 0x73, 0x69, 0x67, 0x6E, 0x69, 0x6E, 0x66, 0x6F, 0x32]
      @ replicate 241 0
      @ [0x42] @ replicate 91 0"

definition mf_head :: bytes where
  "mf_head = 0xFF # replicate 59 0x53"

definition mf_line1 :: bytes where
  "mf_line1 = replicate 64 0x30
      @ [0x20, 0x2F, 0x73, 0x69, 0x67, 0x6E, 0x69, 0x6E, 0x66, 0x6F, 0x32, 0x0A]"

definition mf_line2 :: bytes where
  "mf_line2 = replicate 64 0x31
      @ [0x20, 0x2F, 0x73, 0x69, 0x67, 0x6E, 0x69, 0x6E, 0x66, 0x6F]"

definition mf_tail :: bytes where
  "mf_tail = [0x00, 0x00,  0x68, 0x69]"

definition mf_image :: bytes where
  "mf_image = ex_header @ ex_pids @ mf_desc0 @ mf_desc1 @ mf_head @ mf_line1 @ mf_line2 @ mf_tail"

definition mf_sec0 :: HWNPSection where
  "mf_sec0 = \<lparr> index = 0, item_crc = 0, stored_offset = 0, data_offset = 1016, data_size = 210,
      path = lit ''file:/signinfo'', file_name = lit ''/signinfo'', label = lit ''S'',
      data = mf_head @ mf_line1 @ mf_line2, content_type = Binary, text_content = None,
      desc_raw = mf_desc0 \<rparr>"

definition mf_sec1 :: HWNPSection where
  "mf_sec1 = \<lparr> index = 1, item_crc = 0, stored_offset = 0, data_offset = 1228, data_size = 2,
      path = lit ''file:/signinfo2'', file_name = lit ''/signinfo2'', label = lit ''B'',
      data = [0x68, 0x69], content_type = Flag, text_content = Some (lit ''0x68 0x69''),
      desc_raw = mf_desc1 \<rparr>"

definition mf_fw :: HWNPFirmware where
  "mf_fw = \<lparr> raw = mf_image, payload_size = 16, head_crc = 0x12345678, head_len = 296,
      file_crc = 0, item_num = 2, version = 1, item_desc_size = 360,
      product_ids = [lit ''A'', lit ''B''],
      computed_crc = crc32 (drop 12 mf_image),
      crc_valid = (crc32 (drop 12 mf_image) = 0x12345678),
      sections = [mf_sec0, mf_sec1] \<rparr>"

section \<open>Lemmas about the parser\<close>

lemma length_slice: "length (slice xs a b) = min (b - a) (length xs - a)"
  by (simp add: slice_def)

lemma slice_4: "a + 4 \<le> length d \<Longrightarrow> slice d a (a + 4) = [d ! a, d ! (a + 1), d ! (a + 2), d ! (a + 3)]"
  by (auto simp: slice_def list_eq_iff_nth_eq nth_Cons' less_Suc_eq numeral_eq_Suc)

lemma unpack_le32_short: "length bs \<noteq> 4 \<Longrightarrow> unpack_le32 bs = Inl StructError"
  by (induction bs rule: unpack_le32.induct) auto

lemma unpack_be32_short: "length bs \<noteq> 4 \<Longrightarrow> unpack_be32 bs = Inl StructError"
  by (induction bs rule: unpack_be32.induct) auto

lemma unpack_le32_slice:
  "b = a + 4 \<Longrightarrow> unpack_le32 (slice d a b) = (if b \<le> length d then Inr (le32_at d a) else Inl StructError)"
  by (auto simp: slice_4 le32_at_def unpack_le32_short length_slice)

lemma next_offset_padding:
  "next_offset (data_offset s) (data_size s) = data_offset s + data_size s + padding s"
proof -
  define e where "e = data_offset s + data_size s"
  have m: "e mod 4 < 4" by simp
  have "(if e mod 4 \<noteq> 0 then e + (4 - e mod 4) else e) = e + (4 - e mod 4) mod 4"
  proof (cases "e mod 4 = 0")
    case True then show ?thesis by simp
  next
    case False
    with m have "(4 - e mod 4) mod 4 = 4 - e mod 4" by (intro mod_less) linarith
    with False show ?thesis by simp
  qed
  then show ?thesis
    unfolding next_offset_def padding_def Let_def e_def .
qed

lemma padding_lt: "padding s < 4"
  unfolding padding_def by simp

lemma round_up4: "((e::nat) + (4 - e mod 4) mod 4) mod 4 = 0"
proof -
  define q where "q = e div 4"
  define m where "m = e mod 4"
  have e: "e = 4 * q + m" and m: "m < 4" by (simp_all add: q_def m_def)
  show ?thesis
  proof (cases "m = 0")
    case True
    then show ?thesis by (simp add: m_def[symmetric])
  next
    case False
    with m have p: "(4 - m) mod 4 = 4 - m" by simp
    from m have "e + (4 - m) = 4 * (q + 1)" unfolding e by simp
    then have "(e + (4 - m)) mod 4 = 0" by (metis mod_mult_self1_is_0)
    with p show ?thesis by (simp add: m_def[symmetric])
  qed
qed

lemma padding_rounds_up: "(data_offset s + data_size s + padding s) mod 4 = 0"
  unfolding padding_def by (rule round_up4)

lemma parse_section_Inr:
  "parse_section d i doff = Inr s \<longleftrightarrow>
     SECT_DESC_START + i * SECT_DESC_SIZE + 12 \<le> length d \<and>
     s = (let desc_off = SECT_DESC_START + i * SECT_DESC_SIZE;
              dsize = le32_at d (desc_off + 8);
              path_bytes = slice d (desc_off + 12) (desc_off + 12 + 256);
              path_end = (if 0 \<in> set path_bytes then index0 path_bytes else 256);
              pth = decode_ascii_replace (slice path_bytes 0 path_end);
              label_bytes = slice d (desc_off + 268) (desc_off + 268 + 92);
              label_end = (if 0 \<in> set label_bytes then index0 label_bytes else 92);
              sect_data = slice d doff (doff + dsize);
              fname = str_remove (lit ''file:'') pth;
              ct = classify fname dsize sect_data
          in \<lparr> index = i, item_crc = le32_at d desc_off, stored_offset = le32_at d (desc_off + 4),
               data_offset = doff, data_size = dsize, path = pth, file_name = fname,
               label = decode_ascii_replace (slice label_bytes 0 label_end),
               data = sect_data, content_type = fst ct, text_content = snd ct,
               desc_raw = slice d desc_off (desc_off + SECT_DESC_SIZE) \<rparr>)"
  unfolding parse_section_def Let_def bindE_def
  by (simp add: unpack_le32_slice add.assoc eq_commute[of s])

lemma parse_section_fields:
  assumes "parse_section d i doff = Inr s"
  shows "index s = i" "data_offset s = doff"
    "data_size s = le32_at d (SECT_DESC_START + i * SECT_DESC_SIZE + 8)"
    "SECT_DESC_START + i * SECT_DESC_SIZE + 12 \<le> length d"
    "desc_raw s = slice d (SECT_DESC_START + i * SECT_DESC_SIZE) (SECT_DESC_START + i * SECT_DESC_SIZE + SECT_DESC_SIZE)"
    "data s = slice d doff (doff + data_size s)"
  using assms unfolding parse_section_Inr by (simp_all add: Let_def)
lemma parse_sections_SucE:
  assumes "parse_sections d (Suc n) i doff = Inr secs"
  obtains s rest where "parse_section d i doff = Inr s"
    "parse_sections d n (i + 1) (next_offset doff (data_size s)) = Inr rest" "secs = s # rest"
  using assms by (auto simp: bindE_def split: sum.splits)

lemma parse_sections_length:
  "parse_sections d n i doff = Inr secs \<Longrightarrow> length secs = n"
proof (induction n arbitrary: i doff secs)
  case 0 then show ?case by simp
next
  case (Suc n)
  from Suc.prems obtain s rest where
    "parse_sections d n (i + 1) (next_offset doff (data_size s)) = Inr rest" "secs = s # rest"
    by (rule parse_sections_SucE)
  with Suc.IH show ?case by simp
qed

lemma parse_sections_nth:
  "parse_sections d n i doff = Inr secs \<Longrightarrow> k < n \<Longrightarrow>
     parse_section d (i + k) (data_offset (secs ! k)) = Inr (secs ! k)"
proof (induction n arbitrary: i doff secs k)
  case 0 then show ?case by simp
next
  case (Suc n)
  from Suc.prems(1) obtain s rest where s: "parse_section d i doff = Inr s"
    and rest: "parse_sections d n (i + 1) (next_offset doff (data_size s)) = Inr rest"
    and secs: "secs = s # rest"
    by (rule parse_sections_SucE)
  show ?case
  proof (cases k)
    case 0
    with s parse_section_fields(2)[OF s] show ?thesis by (simp add: secs)
  next
    case (Suc k')
    with Suc.prems(2) have "k' < n" by simp
    from Suc.IH[OF rest this] show ?thesis by (simp add: secs Suc)
  qed
qed

lemma parse_sections_offset:
  "parse_sections d n i doff = Inr secs \<Longrightarrow> k < n \<Longrightarrow>
     data_offset (secs ! k) = doff + (\<Sum>j<k. data_size (secs ! j) + padding (secs ! j))"
proof (induction n arbitrary: i doff secs k)
  case 0
  then show ?case by simp
next
  case (Suc n)
  from Suc.prems(1) obtain s rest where s: "parse_section d i doff = Inr s"
    and rest: "parse_sections d n (i + 1) (next_offset doff (data_size s)) = Inr rest"
    and secs: "secs = s # rest"
    by (rule parse_sections_SucE)
  have off: "data_offset s = doff" using s by (rule parse_section_fields)
  show ?case
  proof (cases k)
    case 0
    then show ?thesis by (simp add: secs off)
  next
    case (Suc k')
    then have "k' < n" using Suc.prems(2) by simp
    from Suc.IH[OF rest this]
    have "data_offset (rest ! k') = next_offset doff (data_size s) + (\<Sum>j<k'. data_size (rest ! j) + padding (rest ! j))" .
    moreover have "next_offset doff (data_size s) = doff + data_size s + padding s"
      using next_offset_padding[of s] off by simp
    moreover have "(\<Sum>j<Suc k'. data_size (secs ! j) + padding (secs ! j))
        = data_size s + padding s + (\<Sum>j<k'. data_size (rest ! j) + padding (rest ! j))"
      unfolding sum.lessThan_Suc_shift by (simp add: secs)
    ultimately show ?thesis
      unfolding Suc by (simp add: secs)
  qed
qed

lemma parse_sections_ok:
  "n = 0 \<or> SECT_DESC_START + (i + n - 1) * SECT_DESC_SIZE + 12 \<le> length d \<Longrightarrow>
     \<exists>secs. parse_sections d n i doff = Inr secs"
proof (induction n arbitrary: i doff)
  case 0 then show ?case by simp
next
  case (Suc n)
  then have last: "SECT_DESC_START + (i + n) * SECT_DESC_SIZE + 12 \<le> length d" by simp
  then have "SECT_DESC_START + i * SECT_DESC_SIZE + 12 \<le> length d"
    by (simp add: SECT_DESC_SIZE_def)
  then obtain s where s: "parse_section d i doff = Inr s"
    unfolding parse_section_Inr by blast
  have "n = 0 \<or> SECT_DESC_START + (i + 1 + n - 1) * SECT_DESC_SIZE + 12 \<le> length d"
    using last by simp
  from Suc.IH[OF this] obtain rest
    where "parse_sections d n (i + 1) (next_offset doff (data_size s)) = Inr rest" by blast
  with s show ?case by (simp add: bindE_def)
qed

lemma unpack_be32_slice:
  "b = a + 4 \<Longrightarrow> unpack_be32 (slice d a b) = (if b \<le> length d then Inr (be32_at d a) else Inl StructError)"
  by (auto simp: slice_4 be32_at_def unpack_be32_short length_slice)

lemma parse_Inr:
  "parse d = Inr fw \<longleftrightarrow>
     slice d 0 4 = HWNP_MAGIC \<and> 32 \<le> length d \<and>
     (\<exists>secs. parse_sections d (le32_at d 20 AND 0xFF) 0
                (SECT_DESC_START + (le32_at d 20 AND 0xFF) * SECT_DESC_SIZE) = Inr secs \<and>
       fw = \<lparr> raw = d, payload_size = be32_at d 4, head_crc = le32_at d 8, head_len = le32_at d 12,
               file_crc = le32_at d 16, item_num = le32_at d 20 AND 0xFF, version = le32_at d 24,
               item_desc_size = le32_at d 28,
               product_ids = decode_product_ids d,
               computed_crc = crc32 (drop 12 d),
               crc_valid = (crc32 (drop 12 d) = le32_at d 8), sections = secs \<rparr>)"
  unfolding parse_def Let_def bindE_def
  by (auto simp: unpack_le32_slice unpack_be32_slice split: sum.splits)

lemma parse_fields:
  assumes "parse d = Inr fw"
  shows "raw fw = d" "32 \<le> length d" "item_num fw = le32_at d 20 AND 0xFF"
    "parse_sections d (item_num fw) 0 (SECT_DESC_START + item_num fw * SECT_DESC_SIZE) = Inr (sections fw)"
    "length (sections fw) = item_num fw"
    "head_crc fw = le32_at d 8" "item_desc_size fw = le32_at d 28"
  using assms unfolding parse_Inr by (auto dest: parse_sections_length)

lemma slice_append1: "b \<le> length xs \<Longrightarrow> slice (xs @ ys) a b = slice xs a b"
  by (simp add: slice_def)

lemma slice_append2: "length xs \<le> a \<Longrightarrow> slice (xs @ ys) a b = slice ys (a - length xs) (b - length xs)"
  by (simp add: slice_def)

lemma slice_all: "length xs \<le> b \<Longrightarrow> slice xs 0 b = xs"
  by (simp add: slice_def)

lemma ex_lengths:
  "length ex_header = 36" "length ex_pids = 260" "length ex_desc0 = 360"
  "length ex_desc1 = 360" "length ex_payload = 6" "length ex_image = 1022"
  by (simp_all add: ex_header_def ex_pids_def ex_desc0_def ex_desc1_def ex_payload_def ex_image_def)

lemma lit_simps:
  "lit [] = []" "lit (c # cs) = of_char c # lit cs"
  by (simp_all add: lit_def)

lemmas ex_slice = slice_append1 slice_append2 slice_all ex_lengths

lemma ex_parse_section0: "parse_section ex_image 0 1016 = Inr ex_sec0"
  unfolding parse_section_Inr
  apply (simp add: SECT_DESC_START_def SECT_DESC_SIZE_def ex_lengths Let_def)
  apply (simp add: ex_image_def ex_slice)
  apply (simp add: le32_at_def nth_append ex_lengths)
  apply (simp add: ex_desc0_def ex_payload_def slice_def index0_def decode_ascii_replace_def
      ex_sec0_def lit_simps classify_def suffix_to_prefix)
  done

lemma ex_parse_section1: "parse_section ex_image 1 1020 = Inr ex_sec1"
  unfolding parse_section_Inr
  apply (simp add: SECT_DESC_START_def SECT_DESC_SIZE_def ex_lengths Let_def)
  apply (simp add: ex_image_def ex_slice)
  apply (simp add: le32_at_def nth_append ex_lengths)
  apply (simp add: ex_desc1_def ex_payload_def slice_def index0_def decode_ascii_replace_def
      ex_sec1_def lit_simps classify_def suffix_to_prefix fmt_0x02X_def hex_upper_def)
  done
lemma and_255: "(n::nat) AND 255 = n mod 256"
proof -
  have "mask 8 = (255::nat)" by (simp add: mask_eq_exp_minus_1)
  then show ?thesis using take_bit_eq_mask[of 8 n] by (simp add: take_bit_eq_mod)
qed

lemma ex_parse_sections: "parse_sections ex_image 2 0 1016 = Inr [ex_sec0, ex_sec1]"
proof -
  have n: "next_offset 1016 (data_size ex_sec0) = 1020"
    by (simp add: next_offset_def Let_def ex_sec0_def)
  have "parse_sections ex_image (Suc (Suc 0)) 0 1016 = Inr [ex_sec0, ex_sec1]"
    using ex_parse_section0 ex_parse_section1 by (simp add: bindE_def n)
  then show ?thesis by (simp add: numeral_2_eq_2)
qed

lemma ex_header_fields:
  "slice ex_image 0 4 = HWNP_MAGIC" "be32_at ex_image 4 = 16" "le32_at ex_image 8 = 0x12345678"
  "le32_at ex_image 12 = 296" "le32_at ex_image 16 = 0" "le32_at ex_image 20 = 2"
  "le32_at ex_image 24 = 1" "le32_at ex_image 28 = 360"
  by (simp_all add: le32_at_def be32_at_def ex_image_def nth_append ex_slice)
     (simp_all add: ex_header_def slice_def HWNP_MAGIC_def)

lemma ex_pid_window:
  "slice ex_image 36 296 = ex_pids" "drop 36 ex_image = ex_pids @ ex_desc0 @ ex_desc1 @ ex_payload"
  by (simp_all add: ex_image_def ex_slice)

lemma ex_decode_product_ids: "decode_product_ids ex_image = [lit ''A'', lit ''B'']"
  unfolding decode_product_ids_def
  apply (simp add: PID_OFFSET_def PID_MAX_LEN_def SECT_DESC_START_def ex_pid_window)
  apply (simp add: ex_pids_def index0_def)
  apply (simp add: ex_image_def ex_slice)
  apply (simp add: slice_def ex_pids_def decode_ascii_replace_def lit_simps)
  done

lemma ex_parse: "parse ex_image = Inr ex_fw"
  unfolding parse_Inr
  by (simp add: ex_lengths and_255 ex_header_fields SECT_DESC_START_def SECT_DESC_SIZE_def
       ex_parse_sections ex_decode_product_ids ex_fw_def)

lemma ex_fw_simps:
  "raw ex_fw = ex_image" "item_num ex_fw = 2" "sections ex_fw = [ex_sec0, ex_sec1]"
  "length (sections ex_fw) = 2" "sections ex_fw ! 0 = ex_sec0" "sections ex_fw ! 1 = ex_sec1"
  "sections ex_fw ! Suc 0 = ex_sec1"
  by (simp_all add: ex_fw_def)
lemma length_slice_assign:
  "length (slice_assign xs a b ys) = min a (length xs) + length ys + (length xs - max a b)"
  by (simp add: slice_assign_def)

lemma slice_assign_inplace_length:
  "a + length ys \<le> length xs \<Longrightarrow> length (slice_assign xs a (a + length ys) ys) = length xs"
  by (simp add: slice_assign_def)

lemma slice_assign_nth_before:
  "k < a \<Longrightarrow> k < length xs \<Longrightarrow> slice_assign xs a b ys ! k = xs ! k"
  by (simp add: slice_assign_def nth_append)

lemma slice_assign_inplace_nth_after:
  assumes "a + length ys \<le> length xs" and "a + length ys \<le> k"
  shows "slice_assign xs a (a + length ys) ys ! k = xs ! k"
proof -
  have la: "length (take a xs) = a" using assms(1) by simp
  have "slice_assign xs a (a + length ys) ys = (take a xs @ ys) @ drop (a + length ys) xs"
    by (simp add: slice_assign_def)
  moreover have "length (take a xs @ ys) = a + length ys" using la by simp
  ultimately have "slice_assign xs a (a + length ys) ys ! k
      = drop (a + length ys) xs ! (k - (a + length ys))"
    using assms(2) by (simp only: nth_append) simp
  also have "\<dots> = xs ! k"
    using assms by simp
  finally show ?thesis .
qed

lemma nth_slice: "k < length (slice xs a b) \<Longrightarrow> slice xs a b ! k = xs ! (a + k)"
proof -
  assume "k < length (slice xs a b)"
  then have "k < b - a" "a \<le> length xs" by (auto simp: length_slice)
  then show ?thesis by (simp add: slice_def)
qed

lemma slice_eqI:
  assumes "length xs = length ys"
    and "\<And>k. p \<le> k \<Longrightarrow> k < q \<Longrightarrow> k < length xs \<Longrightarrow> xs ! k = ys ! k"
  shows "slice xs p q = slice ys p q"
proof (rule nth_equalityI)
  show len: "length (slice xs p q) = length (slice ys p q)"
    using assms(1) by (simp add: length_slice)
  fix k assume k: "k < length (slice xs p q)"
  then have "p + k < q" "p + k < length xs" by (auto simp: length_slice)
  then have "xs ! (p + k) = ys ! (p + k)" by (intro assms(2)) auto
  then show "slice xs p q ! k = slice ys p q ! k"
    using k len by (simp add: nth_slice)
qed

lemma slice_assign_inplace_slice:
  "a + length ys \<le> length xs \<Longrightarrow> slice (slice_assign xs a (a + length ys) ys) a (a + length ys) = ys"
  by (simp add: slice_assign_def slice_def)

lemma slice_assign_inplace_other:
  assumes "a + length ys \<le> length xs" and "q \<le> a \<or> a + length ys \<le> p"
  shows "slice (slice_assign xs a (a + length ys) ys) p q = slice xs p q"
proof (rule slice_eqI)
  show "length (slice_assign xs a (a + length ys) ys) = length xs"
    using assms(1) by (rule slice_assign_inplace_length)
  fix k assume "p \<le> k" "k < q" "k < length (slice_assign xs a (a + length ys) ys)"
  with assms(2) have "k < a \<or> a + length ys \<le> k" by auto
  then show "slice_assign xs a (a + length ys) ys ! k = xs ! k"
  proof
    assume "k < a"
    with assms(1) show ?thesis by (intro slice_assign_nth_before) auto
  next
    assume "a + length ys \<le> k"
    with assms(1) show ?thesis by (rule slice_assign_inplace_nth_after)
  qed
qed
lemma sections_ordered:
  assumes "parse d = Inr fw" and "j < i" and "i < length (sections fw)"
  shows "data_offset (sections fw ! j) + data_size (sections fw ! j)
           \<le> data_offset (sections fw ! i)"
proof -
  let ?f = "\<lambda>l. data_size (sections fw ! l) + padding (sections fw ! l)"
  let ?T = "SECT_DESC_START + item_num fw * SECT_DESC_SIZE"
  have n: "length (sections fw) = item_num fw" using assms(1) by (rule parse_fields)
  have ps: "parse_sections d (item_num fw) 0 ?T = Inr (sections fw)"
    using assms(1) by (rule parse_fields)
  have oi: "data_offset (sections fw ! i) = ?T + (\<Sum>l<i. ?f l)"
    using parse_sections_offset[OF ps] assms(3) n by simp
  have oj: "data_offset (sections fw ! j) = ?T + (\<Sum>l<j. ?f l)"
    using parse_sections_offset[OF ps] assms(2,3) n by simp
  have "(\<Sum>l<Suc j. ?f l) \<le> (\<Sum>l<i. ?f l)"
    using assms(2) by (intro sum_mono2) auto
  then show ?thesis unfolding oi oj by simp
qed

lemma sections_disjoint:
  assumes "parse d = Inr fw" and "j \<noteq> i" and "i < length (sections fw)" and "j < length (sections fw)"
  shows "data_offset (sections fw ! j) + data_size (sections fw ! j) \<le> data_offset (sections fw ! i)
       \<or> data_offset (sections fw ! i) + data_size (sections fw ! i) \<le> data_offset (sections fw ! j)"
  using sections_ordered[OF assms(1), of j i] sections_ordered[OF assms(1), of i j] assms(2-4)
  by (cases "j < i") auto

lemma set_section_data_ok:
  assumes "i < length (sections fw)" and "length b \<le> data_size (sections fw ! i)"
  defines "sec \<equiv> sections fw ! i"
  defines "padded \<equiv> b @ replicate (data_size sec - length b) 0"
  shows "set_section_data (int i) b fw =
     (Inr (), fw\<lparr>raw := slice_assign (raw fw) (data_offset sec) (data_offset sec + data_size sec) padded,
               sections := (sections fw)[i :=
                 (if content_type sec \<in> {Xml, Shell, Text}
                  then (case utf8_decode padded of
                          Some t \<Rightarrow> sec\<lparr>data := padded, text_content := Some t\<rparr>
                        | None \<Rightarrow> sec\<lparr>data := padded\<rparr>)
                  else sec\<lparr>data := padded\<rparr>)]\<rparr>)"
  using assms(1,2) unfolding set_section_data_def Let_def sec_def padded_def
  by (auto split: option.splits)
lemma parse_section_classified:
  assumes "parse_section d i doff = Inr s"
  shows "file_name s = str_remove (lit ''file:'') (path s)"
    and "content_type s = fst (classify (file_name s) (data_size s) (data s))"
    and "text_content s = snd (classify (file_name s) (data_size s) (data s))"
  using assms unfolding parse_section_Inr by (simp_all add: Let_def)

lemma section_classified:
  assumes "parse d = Inr fw" and "i < length (sections fw)"
  shows "file_name (sections fw ! i) = str_remove (lit ''file:'') (path (sections fw ! i))"
    and "content_type (sections fw ! i) = fst (classify (file_name (sections fw ! i))
           (data_size (sections fw ! i)) (data (sections fw ! i)))"
    and "text_content (sections fw ! i) = snd (classify (file_name (sections fw ! i))
           (data_size (sections fw ! i)) (data (sections fw ! i)))"
proof -
  have "i < item_num fw" using assms(2) parse_fields(5)[OF assms(1)] by simp
  from parse_sections_nth[OF parse_fields(4)[OF assms(1)] this]
  have *: "parse_section d i (data_offset (sections fw ! i)) = Inr (sections fw ! i)" by simp
  show "file_name (sections fw ! i) = str_remove (lit ''file:'') (path (sections fw ! i))"
    and "content_type (sections fw ! i) = fst (classify (file_name (sections fw ! i))
           (data_size (sections fw ! i)) (data (sections fw ! i)))"
    and "text_content (sections fw ! i) = snd (classify (file_name (sections fw ! i))
           (data_size (sections fw ! i)) (data (sections fw ! i)))"
    by (rule parse_section_classified[OF *])+
qed

lemma str_remove_no_occurrence:
  "pat \<noteq> [] \<Longrightarrow> last pat \<notin> set ext \<Longrightarrow> str_remove pat ext = ext"
proof (induction pat ext rule: str_remove.induct)
  case (1 pat)
  show ?case by simp
next
  case (2 pat c cs)
  have np: "\<not> prefix pat (c # cs)"
  proof
    assume "prefix pat (c # cs)"
    then have "set pat \<subseteq> set (c # cs)" by (rule set_mono_prefix)
    with "2.prems" have "last pat \<in> set (c # cs)" using last_in_set by blast
    with "2.prems" show False by simp
  qed
  with "2.prems" have "str_remove pat cs = cs" by (intro "2.IH"(2)) auto
  with np show ?case by simp
qed

lemma str_remove_append_protected:
  "pat \<noteq> [] \<Longrightarrow> last pat \<notin> set ext \<Longrightarrow>
     str_remove pat (xs @ ext) = str_remove pat xs @ ext"
proof (induction pat xs rule: str_remove.induct)
  case (1 pat)
  then show ?case using str_remove_no_occurrence by simp
next
  case (2 pat c cs)
  show ?case
  proof (cases "prefix pat (c # cs)")
    case True
    then have l: "length pat - 1 \<le> length cs"
      using prefix_length_le by fastforce
    from True have pp: "prefix pat ((c # cs) @ ext)" by (rule prefix_prefix)
    have "str_remove pat (drop (length pat - 1) cs @ ext) = str_remove pat (drop (length pat - 1) cs) @ ext"
      using True "2.prems" by (intro "2.IH"(1)) auto
    with True pp "2.prems"(1) l show ?thesis by simp
  next
    case False
    have np: "\<not> prefix pat ((c # cs) @ ext)"
    proof
      assume p: "prefix pat ((c # cs) @ ext)"
      have "\<not> length pat \<le> length (c # cs)"
      proof
        assume "length pat \<le> length (c # cs)"
        with p have "prefix pat (c # cs)"
          by (intro prefix_length_prefix[of pat "(c # cs) @ ext" "c # cs"]) simp_all
        with False show False by simp
      qed
      then have lt: "length (c # cs) < length pat" by simp
      define ys where "ys = c # cs"
      from p obtain zs where zs: "ys @ ext = pat @ zs" by (auto simp: prefix_def ys_def)
      from lt have lt': "length ys < length pat" by (simp add: ys_def)
      have "last pat \<in> set ext"
      proof -
        have lp: "last pat = pat ! (length pat - 1)" using "2.prems"(1) by (rule last_conv_nth)
        have "pat ! (length pat - 1) = (pat @ zs) ! (length pat - 1)"
          using "2.prems"(1) by (simp add: nth_append)
        also have "\<dots> = (ys @ ext) ! (length pat - 1)" using zs by simp
        also have "\<dots> = ext ! (length pat - 1 - length ys)"
        proof -
          from lt' have "\<not> length pat - 1 < length ys" by arith
          then show ?thesis by (simp only: nth_append if_False)
        qed
        finally have e: "last pat = ext ! (length pat - 1 - length ys)" using lp by simp
        have "length pat \<le> length (ys @ ext)" using zs
          by (metis length_append le_add1)
        then have "length pat - 1 - length ys < length ext"
          using lt' by simp
        then show ?thesis unfolding e by (rule nth_mem)
      qed
      with "2.prems"(2) show False by simp
    qed
    have "str_remove pat (cs @ ext) = str_remove pat cs @ ext"
      using False "2.prems" by (intro "2.IH"(2)) auto
    with False np show ?thesis by simp
  qed
qed

lemma suffix_str_remove:
  assumes "pat \<noteq> []" and "last pat \<notin> set ext" and "suffix ext p"
  shows "suffix ext (str_remove pat p)"
proof -
  from assms(3) obtain xs where "p = xs @ ext" by (auto simp: suffix_def)
  then show ?thesis using str_remove_append_protected[OF assms(1,2)] by (simp add: suffix_def)
qed
lemma ex2_lengths:
  "length ex2_header = 36" "length ex_pids = 260" "length ex2_desc0 = 360"
  "length ex2_payload = 2" "length ex2_image = 658"
  by (simp_all add: ex2_header_def ex_pids_def ex2_desc0_def ex2_payload_def ex2_image_def)

lemmas ex2_slice = slice_append1 slice_append2 slice_all ex2_lengths

lemma ex2_parse_section0: "parse_section ex2_image 0 656 = Inr ex2_sec0"
  unfolding parse_section_Inr
  apply (simp add: SECT_DESC_START_def SECT_DESC_SIZE_def ex2_lengths Let_def)
  apply (simp add: ex2_image_def ex2_slice)
  apply (simp add: le32_at_def nth_append ex2_lengths)
  apply (simp add: ex2_desc0_def ex2_payload_def slice_def index0_def decode_ascii_replace_def
      ex2_sec0_def lit_simps classify_def suffix_to_prefix)
  done

lemma ex2_parse_sections: "parse_sections ex2_image (Suc 0) 0 656 = Inr [ex2_sec0]"
  by (simp add: bindE_def ex2_parse_section0)

lemma ex2_header_fields:
  "slice ex2_image 0 4 = HWNP_MAGIC" "be32_at ex2_image 4 = 16" "le32_at ex2_image 8 = 0x12345678"
  "le32_at ex2_image 12 = 296" "le32_at ex2_image 16 = 0" "le32_at ex2_image 20 = 1"
  "le32_at ex2_image 24 = 1" "le32_at ex2_image 28 = 360"
  by (simp_all add: le32_at_def be32_at_def ex2_image_def nth_append ex2_slice)
     (simp_all add: ex2_header_def slice_def HWNP_MAGIC_def)

lemma ex2_pid_window:
  "slice ex2_image 36 296 = ex_pids" "drop 36 ex2_image = ex_pids @ ex2_desc0 @ ex2_payload"
  by (simp_all add: ex2_image_def ex2_slice)

lemma ex2_decode_product_ids: "decode_product_ids ex2_image = [lit ''A'', lit ''B'']"
  unfolding decode_product_ids_def
  apply (simp add: PID_OFFSET_def PID_MAX_LEN_def SECT_DESC_START_def ex2_pid_window)
  apply (simp add: ex_pids_def index0_def)
  apply (simp add: ex2_image_def ex2_slice)
  apply (simp add: slice_def ex_pids_def decode_ascii_replace_def lit_simps)
  done

lemma ex2_parse: "parse ex2_image = Inr ex2_fw"
  unfolding parse_Inr
  by (simp add: ex2_lengths and_255 ex2_header_fields SECT_DESC_START_def SECT_DESC_SIZE_def
       bindE_def ex2_parse_section0 ex2_decode_product_ids ex2_fw_def)

lemma ex2_fw_simps:
  "raw ex2_fw = ex2_image" "item_num ex2_fw = 1" "sections ex2_fw = [ex2_sec0]"
  "length (sections ex2_fw) = 1" "sections ex2_fw ! 0 = ex2_sec0"
  by (simp_all add: ex2_fw_def)

lemma suffix_last: "suffix ext f \<Longrightarrow> ext \<noteq> [] \<Longrightarrow> last f = last ext"
  by (auto simp: suffix_def)

lemma ex_sec0_invalid_xml:
  "suffix (lit ''.xml'') (path ex_sec0)" "utf8_decode (data ex_sec0) = None"
  by (simp_all add: ex_sec0_def lit_simps suffix_to_prefix)

lemma parse_eq:
  "parse d =
     (if slice d 0 4 \<noteq> HWNP_MAGIC then Inl ValueError_not_hwnp
      else if length d < 32 then Inl StructError
      else bindE (parse_sections d (le32_at d 20 AND 0xFF) 0
                   (SECT_DESC_START + (le32_at d 20 AND 0xFF) * SECT_DESC_SIZE))
             (\<lambda>secs. Inr \<lparr> raw = d, payload_size = be32_at d 4, head_crc = le32_at d 8,
                 head_len = le32_at d 12, file_crc = le32_at d 16,
                 item_num = le32_at d 20 AND 0xFF, version = le32_at d 24,
                 item_desc_size = le32_at d 28, product_ids = decode_product_ids d,
                 computed_crc = crc32 (drop 12 d),
                 crc_valid = (crc32 (drop 12 d) = le32_at d 8), sections = secs \<rparr>))"
  unfolding parse_def Let_def
  by (simp add: unpack_le32_slice unpack_be32_slice bindE_def)

lemma parse_sections_eq:
  "map_sum id sections (parse d) =
     (if slice d 0 4 \<noteq> HWNP_MAGIC then Inl ValueError_not_hwnp
      else if length d < 32 then Inl StructError
      else parse_sections d (le32_at d 20 AND 0xFF) 0
             (SECT_DESC_START + (le32_at d 20 AND 0xFF) * SECT_DESC_SIZE))"
  unfolding parse_eq by (simp add: bindE_def split: sum.splits)

lemma next_offset_ge: "doff \<le> next_offset doff sz"
proof -
  define m where "m = (doff + sz) mod 4"
  have "doff \<le> (if m \<noteq> 0 then doff + sz + (4 - m) else doff + sz)" by simp
  then show ?thesis unfolding next_offset_def Let_def m_def .
qed

lemma parse_section_cong:
  assumes "\<And>a b. 32 \<le> a \<Longrightarrow> slice d' a b = slice d a b" and "32 \<le> doff"
  shows "parse_section d' i doff = parse_section d i doff"
  unfolding parse_section_def Let_def
  by (simp add: assms SECT_DESC_START_def)

lemma parse_sections_cong:
  assumes "\<And>a b. 32 \<le> a \<Longrightarrow> slice d' a b = slice d a b"
  shows "32 \<le> doff \<Longrightarrow> parse_sections d' n i doff = parse_sections d n i doff"
proof (induction n arbitrary: i doff)
  case 0
  show ?case by simp
next
  case (Suc n)
  have s: "parse_section d' i doff = parse_section d i doff"
    using assms Suc.prems by (rule parse_section_cong)
  have "parse_sections d' n (i + 1) (next_offset doff sz)
      = parse_sections d n (i + 1) (next_offset doff sz)" for sz
    using Suc.prems next_offset_ge[of doff sz] by (intro Suc.IH) simp
  with s show ?case by simp
qed

lemma ex_patched_field:
  "length (slice_assign ex_image 28 32 [0xFF, 0xFF, 0xFF, 0xFF]) = length ex_image"
  "\<forall>k<length ex_image. k < 0x1C \<or> 0x20 \<le> k \<longrightarrow>
      slice_assign ex_image 28 32 [0xFF, 0xFF, 0xFF, 0xFF] ! k = ex_image ! k"
proof -
  have a: "28 + length [0xFF, 0xFF, 0xFF, 0xFF :: byte] \<le> length ex_image"
    by (simp add: ex_lengths)
  show "length (slice_assign ex_image 28 32 [0xFF, 0xFF, 0xFF, 0xFF]) = length ex_image"
    using slice_assign_inplace_length[OF a] by simp
  show "\<forall>k<length ex_image. k < 0x1C \<or> 0x20 \<le> k \<longrightarrow>
      slice_assign ex_image 28 32 [0xFF, 0xFF, 0xFF, 0xFF] ! k = ex_image ! k"
  proof (intro allI impI)
    fix k assume "k < length ex_image" "k < 0x1C \<or> 0x20 \<le> k"
    then show "slice_assign ex_image 28 32 [0xFF, 0xFF, 0xFF, 0xFF] ! k = ex_image ! k"
      using slice_assign_nth_before[of k 28 ex_image 32]
        slice_assign_inplace_nth_after[OF a, of k] by auto
  qed
qed

lemma decode_encode_ascii:
  assumes "\<forall>c\<in>set s. c < 0x80"
  shows "encode_ascii s = Inr (map of_nat s)"
    and "decode_ascii_replace (map of_nat s :: bytes) = s"
proof -
  show "encode_ascii s = Inr (map of_nat s)" using assms by (simp add: encode_ascii_def)
  have "unat (of_nat c :: byte) = c" if "c < 0x80" for c
    using that by (simp add: unat_of_nat)
  then show "decode_ascii_replace (map of_nat s :: bytes) = s"
    using assms by (simp add: decode_ascii_replace_def map_idI)
qed

lemma encode_zero_free:
  assumes "\<forall>c\<in>set s. c < 0x80" and "0 \<notin> set s"
  shows "0 \<notin> set (map of_nat s :: bytes)"
proof
  assume "0 \<in> set (map of_nat s :: bytes)"
  then obtain c where c: "c \<in> set s" "(of_nat c :: byte) = 0" by auto
  from c(1) assms(1) have "c < 0x80" by auto
  then have "unat (of_nat c :: byte) = c" by (simp add: unat_of_nat)
  with c(2) have "c = 0" by simp
  with c(1) assms(2) show False by simp
qed

lemma str_split_no_sep: "sep \<notin> set s \<Longrightarrow> str_split sep s = [s]"
  by (induction s) auto

lemma str_split_append_sep:
  "sep \<notin> set s \<Longrightarrow> str_split sep (s @ sep # r) = s # str_split sep r"
  by (induction s) auto

lemma str_join_trailing:
  "ids \<noteq> [] \<Longrightarrow> str_join [sep] ids @ [sep] = concat (map (\<lambda>s. s @ [sep]) ids)"
  by (induction ids rule: str_join.induct[of _ "[sep]"]) auto

lemma str_split_concat:
  "\<forall>s\<in>set ids. sep \<notin> set s \<Longrightarrow>
     str_split sep (concat (map (\<lambda>s. s @ [sep]) ids)) = ids @ [[]]"
  by (induction ids) (auto simp: str_split_append_sep)

lemma split_join_roundtrip:
  assumes "\<forall>s\<in>set ids. s \<noteq> [] \<and> sep \<notin> set s"
  shows "filter (\<lambda>s. s \<noteq> []) (str_split sep (str_join [sep] ids @ [sep])) = ids"
proof (cases "ids = []")
  case True
  then show ?thesis by simp
next
  case False
  have "filter (\<lambda>s. s \<noteq> []) ids = ids" using assms by (simp add: filter_id_conv)
  with False assms show ?thesis
    by (simp add: str_join_trailing str_split_concat)
qed
lemma set_pid_tail:
  assumes "length pb \<le> 260"
  shows "\<exists>k R. drop 36 (slice_assign (slice_assign r 36 (36 + 260) (replicate 260 (0::byte)))
                       36 (36 + length pb) pb)
           = pb @ replicate k 0 @ R \<and> (k = 260 - length pb \<or> R = [])"
proof -
  define raw1 where "raw1 = slice_assign r 36 (36 + 260) (replicate 260 (0::byte))"
  have raw1: "raw1 = take 36 r @ replicate 260 0 @ drop 296 r"
    by (simp add: raw1_def slice_assign_def)
  have "36 \<le> length raw1" by (simp add: raw1)
  then have l36: "length (take 36 raw1) = 36" by simp
  have "slice_assign raw1 36 (36 + length pb) pb = take 36 raw1 @ pb @ drop (36 + length pb) raw1"
    by (simp add: slice_assign_def)
  then have tail: "drop 36 (slice_assign raw1 36 (36 + length pb) pb)
      = pb @ drop (36 + length pb) raw1"
    using l36 by simp
  show ?thesis
  proof (cases "36 \<le> length r")
    case True
    then have "length (take 36 r) = 36" by simp
    then have "drop (36 + length pb) raw1 = drop (length pb) (replicate 260 0 @ drop 296 r)"
      unfolding raw1 by simp
    also have "\<dots> = replicate (260 - length pb) 0 @ drop 296 r"
      using assms by simp
    finally have "drop 36 (slice_assign raw1 36 (36 + length pb) pb)
        = pb @ replicate (260 - length pb) 0 @ drop 296 r" using tail by simp
    then show ?thesis unfolding raw1_def by blast
  next
    case False
    then have "raw1 = r @ replicate 260 0" by (simp add: raw1)
    then have "drop (36 + length pb) raw1 = replicate (260 - (36 + length pb - length r)) 0 @ []"
      using False by simp
    with tail have "drop 36 (slice_assign raw1 36 (36 + length pb) pb)
        = pb @ replicate (260 - (36 + length pb - length r)) 0 @ []" by simp
    then show ?thesis unfolding raw1_def by blast
  qed
qed

lemma decode_product_ids_tail:
  assumes "drop 36 d = pb @ replicate k 0 @ R" and "0 \<notin> set pb" and "length pb \<le> 260"
    and "k = 260 - length pb \<or> R = []"
  shows "decode_product_ids d
           = filter (\<lambda>s. s \<noteq> []) (str_split 0x7C (decode_ascii_replace pb))"
proof -
  let ?n = "length pb"
  have win: "slice d 36 296 = pb @ take (260 - ?n) (replicate k 0 @ R)"
    using assms(1,3) by (simp add: slice_def)
  have "slice d 36 (if 0 \<in> set (slice d 36 296) then 36 + index0 (drop 36 d) else 296) = pb"
  proof (cases "0 < k \<and> ?n < 260")
    case True
    then obtain k' where k': "k = Suc k'" by (cases k) auto
    from True obtain m where m: "260 - ?n = Suc m" by (cases "260 - ?n") auto
    have z: "0 \<in> set (slice d 36 296)" unfolding win by (simp add: k' m)
    have "\<And>x. x \<in> set pb \<Longrightarrow> x \<noteq> 0" using assms(2) by auto
    then have "takeWhile (\<lambda>b. b \<noteq> 0) (pb @ replicate k 0 @ R) = pb"
      by (simp add: k')
    then have "index0 (drop 36 d) = ?n" by (simp add: index0_def assms(1))
    with z show ?thesis by (simp add: slice_def assms(1))
  next
    case False
    have "take (260 - ?n) (replicate k 0 @ R) = []"
    proof (cases "?n < 260")
      case True
      with False have "k = 0" by simp
      with assms(4) True have "R = []" by auto
      with \<open>k = 0\<close> show ?thesis by simp
    next
      case False
      then show ?thesis by simp
    qed
    with win have w: "slice d 36 296 = pb" by simp
    with assms(2) show ?thesis by simp
  qed
  then show ?thesis
    unfolding decode_product_ids_def Let_def
    by (simp add: PID_OFFSET_def PID_MAX_LEN_def SECT_DESC_START_def split: if_splits)
qed
lemma set_product_ids_ok:
  fixes ids :: "str list"
  defines "pid_str \<equiv> str_join (lit ''|'') ids @ lit ''|''"
  assumes "\<forall>c\<in>set pid_str. c < 0x80" and "0 \<notin> set pid_str" and "length pid_str \<le> PID_MAX_LEN"
  shows "\<exists>fw'. set_product_ids ids fw = (Inr (), fw') \<and> product_ids fw' = ids
           \<and> sections fw' = sections fw
           \<and> decode_product_ids (raw fw') = filter (\<lambda>s. s \<noteq> []) (str_split 0x7C pid_str)"
proof -
  define pb :: bytes where "pb = map of_nat pid_str"
  have enc: "encode_ascii pid_str = Inr pb" and dec: "decode_ascii_replace pb = pid_str"
    unfolding pb_def using assms(2) by (rule decode_encode_ascii)+
  have z: "0 \<notin> set pb" unfolding pb_def using assms(2,3) by (rule encode_zero_free)
  have len: "length pb \<le> 260" using assms(4)
    by (simp add: pb_def PID_MAX_LEN_def SECT_DESC_START_def PID_OFFSET_def)
  define raw2 where "raw2 = slice_assign (slice_assign (raw fw) 36 (36 + 260) (replicate 260 0))
                       36 (36 + length pb) pb"
  have ok: "set_product_ids ids fw = (Inr (), fw\<lparr>raw := raw2, product_ids := ids\<rparr>)"
    unfolding set_product_ids_def Let_def pid_str_def[symmetric] enc raw2_def
    using len by (simp add: PID_MAX_LEN_def SECT_DESC_START_def PID_OFFSET_def)
  from set_pid_tail[OF len, of "raw fw"] obtain k R where
    "drop 36 raw2 = pb @ replicate k 0 @ R" "k = 260 - length pb \<or> R = []"
    unfolding raw2_def by blast
  from decode_product_ids_tail[OF this(1) z len this(2)]
  have "decode_product_ids raw2 = filter (\<lambda>s. s \<noteq> []) (str_split 0x7C pid_str)"
    by (simp add: dec)
  with ok show ?thesis by simp
qed

lemma set_str_join: "set (str_join sep ids) \<subseteq> (\<Union>s\<in>set ids. set s) \<union> set sep"
  by (induction sep ids rule: str_join.induct) auto
lemma sha256_round_length: "length (sha256_round st kw) = length st"
  by (induction st kw rule: sha256_round.induct) (simp_all add: Let_def)

lemma sha256_foldl_length: "length (foldl sha256_round st kws) = length st"
  by (induction kws arbitrary: st) (simp_all add: sha256_round_length)

lemma sha256_block_length: "length (sha256_block hs blk) = length hs"
  by (simp add: sha256_block_def sha256_foldl_length)

lemma sha256_blocks_length: "length (sha256_blocks n hs m) = length hs"
  by (induction n arbitrary: hs m) (simp_all add: sha256_block_length)

lemma length_concat_const:
  "(\<And>x. x \<in> set xs \<Longrightarrow> length (f x) = n) \<Longrightarrow> length (concat (map f xs)) = n * length xs"
  by (induction xs) simp_all

lemma hex_word_length: "length (hex_word w) = 8"
  by (simp add: hex_word_def)

lemma sha256_hexdigest_length: "length (sha256_hexdigest m) = 64"
proof -
  have "length (take 8 (sha256_blocks (length (sha256_pad m) div 64) sha256_H0 (sha256_pad m))) = 8"
    by (simp add: sha256_blocks_length sha256_H0_def)
  then show ?thesis
    unfolding sha256_hexdigest_def Let_def
    using length_concat_const[of _ hex_word 8, OF hex_word_length] by simp
qed

lemma first_index_Some:
  "first_index P xs = Some k \<Longrightarrow> k < length xs \<and> P (xs ! k) \<and> (\<forall>j<k. \<not> P (xs ! j))"
proof (induction xs arbitrary: k)
  case Nil
  then show ?case by simp
next
  case (Cons x xs)
  show ?case
  proof (cases "P x")
    case True
    with Cons.prems show ?thesis by simp
  next
    case False
    with Cons.prems obtain k' where k': "first_index P xs = Some k'" "k = Suc k'" by auto
    from Cons.IH[OF k'(1)] False show ?thesis
      by (auto simp: k'(2) nth_Cons' less_Suc_eq_0_disj)
  qed
qed

lemma first_index_None: "first_index P xs = None \<Longrightarrow> \<forall>x\<in>set xs. \<not> P x"
  by (induction xs) (auto split: if_splits)

lemma slice_assign_grows:
  "b - a \<le> length ys \<Longrightarrow> length xs \<le> length (slice_assign xs a b ys)"
  unfolding length_slice_assign by (auto simp: min_def max_def)

lemma patch_hash_length: "length rw \<le> length (patch_hash secs off rw m)"
  unfolding patch_hash_def Let_def
  by (simp add: slice_assign_grows sha256_hexdigest_length split: option.splits)

lemma patch_hash_nth_before:
  "k < off \<Longrightarrow> k < length rw \<Longrightarrow> patch_hash secs off rw m ! k = rw ! k"
  unfolding patch_hash_def Let_def
  by (simp add: slice_assign_nth_before split: option.splits)

lemma patch_fold_prefix:
  "length rw \<le> length (foldl (patch_hash secs off) rw ms)
   \<and> (\<forall>k. k < off \<and> k < length rw \<longrightarrow> foldl (patch_hash secs off) rw ms ! k = rw ! k)"
proof (induction ms arbitrary: rw)
  case Nil
  show ?case by simp
next
  case (Cons m ms)
  let ?r = "patch_hash secs off rw m"
  have l: "length rw \<le> length ?r" by (rule patch_hash_length)
  from Cons.IH[of ?r] l show ?case
    by (auto simp: patch_hash_nth_before)
qed

lemma fix_signinfo_sections:
  "length (sections (fix_signinfo fw)) = length (sections fw)"
  "map data_offset (sections (fix_signinfo fw)) = map data_offset (sections fw)"
  "map data_size (sections (fix_signinfo fw)) = map data_size (sections fw)"
  "map path (sections (fix_signinfo fw)) = map path (sections fw)"
  unfolding fix_signinfo_def Let_def
  by (auto split: option.splits dest!: first_index_Some simp: map_update list_update_same_conv)

lemma fix_signinfo_raw_length: "length (raw fw) \<le> length (raw (fix_signinfo fw))"
proof (cases "first_index (\<lambda>s. sublist (lit ''signinfo'') (path s)) (sections fw)")
  case None
  then show ?thesis by (simp add: fix_signinfo_def)
next
  case (Some k)
  let ?off = "data_offset (sections fw ! k)"
  let ?r1 = "slice_assign (raw fw) ?off (?off + 60) (replicate 60 0)"
  have "length (raw fw) \<le> length ?r1" by (rule slice_assign_grows) simp
  also have "\<dots> \<le> length (foldl (patch_hash (sections fw) ?off) ?r1
      (finditer 0 (decode_ascii_replace (slice ?r1 ?off (?off + data_size (sections fw ! k))))))"
    using patch_fold_prefix by blast
  finally show ?thesis using Some by (simp add: fix_signinfo_def Let_def)
qed

lemma fix_signinfo_raw_prefix:
  assumes "\<forall>s\<in>set (sections fw). B \<le> data_offset s" and "k < B" and "k < length (raw fw)"
  shows "raw (fix_signinfo fw) ! k = raw fw ! k"
proof (cases "first_index (\<lambda>s. sublist (lit ''signinfo'') (path s)) (sections fw)")
  case None
  then show ?thesis by (simp add: fix_signinfo_def)
next
  case (Some i)
  let ?off = "data_offset (sections fw ! i)"
  let ?r1 = "slice_assign (raw fw) ?off (?off + 60) (replicate 60 0)"
  let ?ms = "finditer 0 (decode_ascii_replace (slice ?r1 ?off (?off + data_size (sections fw ! i))))"
  from first_index_Some[OF Some] have "sections fw ! i \<in> set (sections fw)" by simp
  with assms(1,2) have ko: "k < ?off" by fastforce
  have l1: "length (raw fw) \<le> length ?r1" by (rule slice_assign_grows) simp
  with assms(3) have k1: "k < length ?r1" by simp
  have "foldl (patch_hash (sections fw) ?off) ?r1 ?ms ! k = ?r1 ! k"
    using patch_fold_prefix[of ?r1 "sections fw" ?off ?ms] ko k1 by blast
  also have "\<dots> = raw fw ! k" using ko assms(3) by (rule slice_assign_nth_before)
  finally show ?thesis using Some by (simp add: fix_signinfo_def Let_def)
qed
lemma crc32_lt: "crc32 bs < 2 ^ 32"
proof -
  have "mask 32 = (0xFFFFFFFF::nat)" by (simp add: mask_eq_exp_minus_1)
  then have "crc32 bs = take_bit 32 (binascii_crc32 bs)"
    by (simp add: crc32_def take_bit_eq_mask)
  then show ?thesis by (simp add: take_bit_eq_mod)
qed

lemma le32_at_pack:
  assumes "v < 2 ^ 32"
  shows "le32_at (xs @ pack_le32 v @ ys) (length xs) = v"
proof -
  define q1 where "q1 = v div 256"
  define q2 where "q2 = q1 div 256"
  define q3 where "q3 = q2 div 256"
  have d2: "v div 65536 = q2" unfolding q2_def q1_def by (simp add: div_mult2_eq[symmetric])
  have d3: "v div 16777216 = q3" unfolding q3_def q2_def q1_def by (simp add: div_mult2_eq[symmetric])
  have "q3 < 256" using assms unfolding d3[symmetric] by (simp add: less_mult_imp_div_less)
  then have m3: "q3 mod 256 = q3" by simp
  have e0: "v = 256 * q1 + v mod 256" unfolding q1_def by simp
  have e1: "q1 = 256 * q2 + q1 mod 256" unfolding q2_def by simp
  have e2: "q2 = 256 * q3 + q2 mod 256" unfolding q3_def by simp
  have "le32_at (xs @ pack_le32 v @ ys) (length xs)
      = v mod 256 + 256 * (q1 mod 256) + 65536 * (q2 mod 256) + 16777216 * (q3 mod 256)"
    unfolding le32_at_def
    by (simp add: nth_append_length[of xs, simplified]
          pack_le32_def unat_of_nat d2 d3 q1_def[symmetric] del: append.simps)
       (simp add: nth_append unat_of_nat)
  also have "\<dots> = v" using e0 e1 e2 m3 by linarith
  finally show ?thesis .
qed

lemma recalculate_crc_ok:
  assumes "12 \<le> length (raw fw)"
  defines "v \<equiv> crc32 (drop 12 (raw fw))"
  shows "recalculate_crc fw =
     (Inr (), fw\<lparr>raw := take 8 (raw fw) @ pack_le32 v @ drop 12 (raw fw),
                 head_crc := v, computed_crc := v, crc_valid := True\<rparr>)"
  unfolding recalculate_crc_def Let_def pack_into_le32_def v_def
  using assms(1) crc32_lt[of "drop 12 (raw fw)"] by simp

lemma save_ok:
  assumes "12 \<le> length (raw fw)"
  defines "r \<equiv> raw (fix_signinfo fw)"
  defines "v \<equiv> crc32 (drop 12 r)"
  defines "out \<equiv> take 8 r @ pack_le32 v @ drop 12 r"
  shows "save fw = (Inr out, (fix_signinfo fw)\<lparr>raw := out, head_crc := v, computed_crc := v,
                                               crc_valid := True\<rparr>)"
    and "drop 12 out = drop 12 r" and "slice out 8 12 = pack_le32 v" and "le32_at out 8 = v"
    and "length out = length r"
proof -
  have l: "12 \<le> length r" using assms(1) fix_signinfo_raw_length[of fw] by (simp add: r_def)
  show "save fw = (Inr out, (fix_signinfo fw)\<lparr>raw := out, head_crc := v, computed_crc := v,
                                               crc_valid := True\<rparr>)"
    unfolding save_def using recalculate_crc_ok[of "fix_signinfo fw"] l
    by (simp add: r_def v_def out_def)
  have l8: "length (take 8 r) = 8" using l by simp
  have lp: "length (pack_le32 v) = 4" by (simp add: pack_le32_def)
  show "drop 12 out = drop 12 r" unfolding out_def using l8 lp by simp
  show "slice out 8 12 = pack_le32 v" unfolding out_def slice_def using l8 lp by simp
  show "le32_at out 8 = v"
    unfolding out_def using le32_at_pack[of v "take 8 r" "drop 12 r"] crc32_lt[of "drop 12 r"] l8
    by (simp add: v_def)
  show "length out = length r" unfolding out_def using l lp by simp
qed
lemma parsed_offset_ge:
  assumes "parse d = Inr fw" and "s \<in> set (sections fw)"
  shows "SECT_DESC_START + item_num fw * SECT_DESC_SIZE \<le> data_offset s"
proof -
  from assms(2) obtain i where i: "i < length (sections fw)" "s = sections fw ! i"
    by (auto simp: in_set_conv_nth)
  then have "i < item_num fw" using parse_fields(5)[OF assms(1)] by simp
  from parse_sections_offset[OF parse_fields(4)[OF assms(1)] this] show ?thesis
    by (simp add: i(2))
qed

lemma parsed_descriptor_in_buffer:
  assumes "parse d = Inr fw" and "i < item_num fw"
  shows "SECT_DESC_START + i * SECT_DESC_SIZE + 12 \<le> length d"
    and "data_size (sections fw ! i) = le32_at d (SECT_DESC_START + i * SECT_DESC_SIZE + 8)"
proof -
  from parse_sections_nth[OF parse_fields(4)[OF assms(1)] assms(2)]
  have s: "parse_section d i (data_offset (sections fw ! i)) = Inr (sections fw ! i)" by simp
  show "SECT_DESC_START + i * SECT_DESC_SIZE + 12 \<le> length d"
    using s by (rule parse_section_fields)
  show "data_size (sections fw ! i) = le32_at d (SECT_DESC_START + i * SECT_DESC_SIZE + 8)"
    using s by (rule parse_section_fields)
qed

lemma le32_at_cong:
  "(\<And>j. j < 4 \<Longrightarrow> d' ! (a + j) = d ! (a + j)) \<Longrightarrow> le32_at d' a = le32_at d a"
proof -
  assume h: "\<And>j. j < 4 \<Longrightarrow> d' ! (a + j) = d ! (a + j)"
  from h[of 0] h[of 1] h[of 2] h[of 3] show ?thesis by (simp add: le32_at_def)
qed

lemma parse_sections_layout_cong:
  "parse_sections d n i doff = Inr secs \<Longrightarrow> parse_sections d' n i doff = Inr secs' \<Longrightarrow>
   (\<And>k. k < n \<Longrightarrow> le32_at d' (SECT_DESC_START + (i + k) * SECT_DESC_SIZE + 8)
                  = le32_at d (SECT_DESC_START + (i + k) * SECT_DESC_SIZE + 8)) \<Longrightarrow>
   map data_size secs' = map data_size secs \<and> map data_offset secs' = map data_offset secs"
proof (induction n arbitrary: i doff secs secs')
  case 0
  then show ?case by simp
next
  case (Suc n)
  from Suc.prems(1) obtain s rest where s: "parse_section d i doff = Inr s"
    and rest: "parse_sections d n (i + 1) (next_offset doff (data_size s)) = Inr rest"
    and secs: "secs = s # rest"
    by (rule parse_sections_SucE)
  from Suc.prems(2) obtain s' rest' where s': "parse_section d' i doff = Inr s'"
    and rest': "parse_sections d' n (i + 1) (next_offset doff (data_size s')) = Inr rest'"
    and secs': "secs' = s' # rest'"
    by (rule parse_sections_SucE)
  have sz: "data_size s' = data_size s"
    using parse_section_fields(3)[OF s] parse_section_fields(3)[OF s'] Suc.prems(3)[of 0] by simp
  have off: "data_offset s' = data_offset s"
    using parse_section_fields(2)[OF s] parse_section_fields(2)[OF s'] by simp
  have "map data_size rest' = map data_size rest \<and> map data_offset rest' = map data_offset rest"
  proof (rule Suc.IH[OF rest])
    show "parse_sections d' n (i + 1) (next_offset doff (data_size s)) = Inr rest'"
      using rest' sz by simp
    fix k assume "k < n"
    then show "le32_at d' (SECT_DESC_START + (i + 1 + k) * SECT_DESC_SIZE + 8)
             = le32_at d (SECT_DESC_START + (i + 1 + k) * SECT_DESC_SIZE + 8)"
      using Suc.prems(3)[of "Suc k"] by simp
  qed
  then show ?case by (simp add: secs secs' sz off)
qed

lemma save_out_frame:
  assumes "parse d = Inr fw"
  defines "r \<equiv> raw (fix_signinfo fw)"
  defines "out \<equiv> take 8 r @ pack_le32 (crc32 (drop 12 r)) @ drop 12 r"
  shows "length d \<le> length out"
    and "k < SECT_DESC_START + item_num fw * SECT_DESC_SIZE \<Longrightarrow> k < length d \<Longrightarrow>
           k < 8 \<or> 12 \<le> k \<Longrightarrow> out ! k = d ! k"
proof -
  have rw: "raw fw = d" and l32: "32 \<le> length d" using assms(1) by (rule parse_fields)+
  have lr: "length d \<le> length r" using fix_signinfo_raw_length[of fw] by (simp add: r_def rw)
  let ?p = "pack_le32 (crc32 (drop 12 r))"
  have lp: "length ?p = 4" by (simp add: pack_le32_def)
  have o: "out = slice_assign r 8 (8 + length ?p) ?p"
    by (simp add: out_def slice_assign_def lp)
  have inb: "8 + length ?p \<le> length r" using lr l32 lp by simp
  show "length d \<le> length out"
    unfolding o using slice_assign_inplace_length[OF inb] lr by simp
  assume k: "k < SECT_DESC_START + item_num fw * SECT_DESC_SIZE" "k < length d" "k < 8 \<or> 12 \<le> k"
  have "out ! k = r ! k"
  proof (cases "k < 8")
    case True
    then show ?thesis unfolding o using k(2) lr by (intro slice_assign_nth_before) auto
  next
    case False
    with k(3) have "8 + length ?p \<le> k" by (simp add: lp)
    with inb show ?thesis unfolding o by (rule slice_assign_inplace_nth_after)
  qed
  also have "r ! k = d ! k"
    unfolding r_def rw[symmetric]
    using parsed_offset_ge[OF assms(1)] k(1) k(2)
    by (intro fix_signinfo_raw_prefix[where B="SECT_DESC_START + item_num fw * SECT_DESC_SIZE"])
       (auto simp: rw)
  finally show "out ! k = d ! k" .
qed
lemma tr_lengths:
  "length ex_header = 36" "length ex_pids = 260" "length ex_desc0 = 360"
  "length ex_desc1 = 360" "length tr_image = 1016"
  by (simp_all add: ex_lengths tr_image_def)

lemmas tr_slice = slice_append1 slice_append2 slice_all tr_lengths

lemma tr_parse_section0: "parse_section tr_image 0 1016 = Inr tr_sec0"
  unfolding parse_section_Inr
  apply (simp add: SECT_DESC_START_def SECT_DESC_SIZE_def tr_lengths Let_def)
  apply (simp add: tr_image_def tr_slice)
  apply (simp add: le32_at_def nth_append tr_lengths)
  apply (simp add: slice_def tr_lengths)
  apply (simp add: ex_desc0_def index0_def decode_ascii_replace_def
      tr_sec0_def lit_simps classify_def suffix_to_prefix)
  done

lemma tr_parse_section1: "parse_section tr_image 1 1020 = Inr tr_sec1"
  unfolding parse_section_Inr
  apply (simp add: SECT_DESC_START_def SECT_DESC_SIZE_def tr_lengths Let_def)
  apply (simp add: tr_image_def tr_slice)
  apply (simp add: le32_at_def nth_append tr_lengths)
  apply (simp add: slice_def tr_lengths)
  apply (simp add: ex_desc1_def index0_def decode_ascii_replace_def
      tr_sec1_def lit_simps classify_def suffix_to_prefix)
  done

lemma tr_parse_sections: "parse_sections tr_image 2 0 1016 = Inr [tr_sec0, tr_sec1]"
proof -
  have n: "next_offset 1016 (data_size tr_sec0) = 1020"
    by (simp add: next_offset_def Let_def tr_sec0_def)
  have "parse_sections tr_image (Suc (Suc 0)) 0 1016 = Inr [tr_sec0, tr_sec1]"
    using tr_parse_section0 tr_parse_section1 by (simp add: bindE_def n)
  then show ?thesis by (simp add: numeral_2_eq_2)
qed

lemma tr_header_fields:
  "slice tr_image 0 4 = HWNP_MAGIC" "be32_at tr_image 4 = 16" "le32_at tr_image 8 = 0x12345678"
  "le32_at tr_image 12 = 296" "le32_at tr_image 16 = 0" "le32_at tr_image 20 = 2"
  "le32_at tr_image 24 = 1" "le32_at tr_image 28 = 360"
  by (simp_all add: le32_at_def be32_at_def tr_image_def nth_append tr_slice)
     (simp_all add: ex_header_def slice_def HWNP_MAGIC_def)

lemma tr_pid_window:
  "slice tr_image 36 296 = ex_pids" "drop 36 tr_image = ex_pids @ ex_desc0 @ ex_desc1"
  by (simp_all add: tr_image_def tr_slice)

lemma tr_decode_product_ids: "decode_product_ids tr_image = [lit ''A'', lit ''B'']"
  unfolding decode_product_ids_def
  apply (simp add: PID_OFFSET_def PID_MAX_LEN_def SECT_DESC_START_def tr_pid_window)
  apply (simp add: ex_pids_def index0_def)
  apply (simp add: tr_image_def tr_slice)
  apply (simp add: slice_def ex_pids_def decode_ascii_replace_def lit_simps)
  done

lemma tr_parse: "parse tr_image = Inr tr_fw"
  unfolding parse_Inr
  by (simp add: tr_lengths and_255 tr_header_fields SECT_DESC_START_def SECT_DESC_SIZE_def
       tr_parse_sections tr_decode_product_ids tr_fw_def)

lemma tr_fw_simps:
  "raw tr_fw = tr_image" "item_num tr_fw = 2" "sections tr_fw = [tr_sec0, tr_sec1]"
  "length (sections tr_fw) = 2" "sections tr_fw ! 0 = tr_sec0" "sections tr_fw ! 1 = tr_sec1"
  "sections tr_fw ! Suc 0 = tr_sec1"
  by (simp_all add: tr_fw_def)

section \<open>Lemmas about the integrity patcher\<close>

subsection \<open>The matches of the regular expression\<close>

lemma match_here_props:
  assumes "match_here s = Some (len, g)"
  shows "67 \<le> len" and "len \<le> length s" and "64 \<le> length s"
    and "\<forall>j<64. is_hex_lower (s ! j)"
proof -
  let ?r = "drop 64 s"
  let ?ws = "takeWhile is_space ?r"
  from assms have h: "length (take 64 s) = 64" "list_all is_hex_lower (take 64 s)"
    by (auto simp: match_here_def Let_def split: if_splits)
  from h(1) show l64: "64 \<le> length s" by simp
  from assms h have ws: "?ws \<noteq> []"
    by (auto simp: match_here_def Let_def split: if_splits)
  from assms h ws obtain c r' where dw: "dropWhile is_space ?r = c # r'"
    by (auto simp: match_here_def Let_def split: if_splits list.splits)
  let ?p = "takeWhile (\<lambda>x. x \<noteq> 0x0A) r'"
  from assms h ws dw have p: "?p \<noteq> []" and len: "len = 64 + length ?ws + 1 + length ?p"
    by (auto simp: match_here_def Let_def split: if_splits)
  from ws p have "1 \<le> length ?ws" "1 \<le> length ?p" by (simp_all add: Suc_leI)
  with len show "67 \<le> len" by simp
  have e1: "length ?r = length ?ws + length (dropWhile is_space ?r)"
    by (metis length_append takeWhile_dropWhile_id)
  have e2: "length (dropWhile is_space ?r) = 1 + length r'" by (simp add: dw)
  have e3: "length ?p \<le> length r'" by (rule length_takeWhile_le)
  have e4: "length s = 64 + length ?r" using l64 by simp
  from e1 e2 e3 e4 len show "len \<le> length s" by linarith
  show "\<forall>j<64. is_hex_lower (s ! j)"
  proof (intro allI impI)
    fix j :: nat assume j: "j < 64"
    from j h(1) have "j < length (take 64 s)" by (simp only:)
    then have "take 64 s ! j \<in> set (take 64 s)" by (rule nth_mem)
    with h(2) have "is_hex_lower (take 64 s ! j)" unfolding list_all_iff by blast
    with j show "is_hex_lower (s ! j)" by (simp only: nth_take)
  qed
qed

lemma match_here_not_hex: "\<not> is_hex_lower c \<Longrightarrow> match_here (c # cs) = None"
proof (rule ccontr)
  assume nh: "\<not> is_hex_lower c" and "match_here (c # cs) \<noteq> None"
  then obtain len g where "match_here (c # cs) = Some (len, g)" by auto
  from match_here_props(4)[OF this, rule_format, of 0] have "is_hex_lower ((c # cs) ! 0)" by simp
  with nh show False by simp
qed

lemma finditer_props:
  "m \<in> set (finditer pos t) \<Longrightarrow>
     pos \<le> fst m \<and> fst m + 64 \<le> pos + length t \<and> (\<forall>j<64. is_hex_lower (t ! (fst m - pos + j)))"
proof (induction pos t rule: finditer.induct)
  case (1 pos)
  then show ?case by simp
next
  case (2 pos c cs)
  show ?case
  proof (cases "match_here (c # cs)")
    case None
    with "2.prems" have "m \<in> set (finditer (pos + 1) cs)" by simp
    from "2.IH"(1)[OF None this]
    have a: "pos + 1 \<le> fst m" "fst m + 64 \<le> pos + 1 + length cs"
      and b: "\<forall>j<64. is_hex_lower (cs ! (fst m - (pos + 1) + j))" by auto
    have "(c # cs) ! (fst m - pos + j) = cs ! (fst m - (pos + 1) + j)" for j
      using a(1) by (simp add: nth_Cons' Suc_diff_le)
    with a b show ?thesis by simp
  next
    case (Some lg)
    obtain len g where lg: "lg = (len, g)" by (cases lg)
    note mh = match_here_props[OF Some[unfolded lg]]
    from "2.prems" Some lg have "m = (pos, g) \<or> m \<in> set (finditer (pos + len) (drop (len - 1) cs))"
      by simp
    then show ?thesis
    proof
      assume "m = (pos, g)"
      with mh show ?thesis by simp
    next
      assume m: "m \<in> set (finditer (pos + len) (drop (len - 1) cs))"
      from "2.IH"(2)[OF Some lg[symmetric] m] mh lg
      have a: "pos + len \<le> fst m" "fst m + 64 \<le> pos + len + length (drop (len - 1) cs)"
        and b: "\<forall>j<64. is_hex_lower (drop (len - 1) cs ! (fst m - (pos + len) + j))" by auto
      have dl: "drop (len - 1) cs = drop len (c # cs)" using mh(1) by (cases len) simp_all
      have le: "len \<le> length (c # cs)" using mh(2) .
      have c1: "fst m + 64 \<le> pos + length (c # cs)" using a(2) le unfolding dl by simp
      have "drop len (c # cs) ! (fst m - (pos + len) + j) = (c # cs) ! (fst m - pos + j)" for j
      proof -
        have "len + (fst m - (pos + len) + j) = fst m - pos + j" using a(1) by simp
        then show ?thesis using le by (metis nth_drop)
      qed
      with b have "\<forall>j<64. is_hex_lower ((c # cs) ! (fst m - pos + j))" unfolding dl by simp
      with a(1) c1 show ?thesis by simp
    qed
  qed
qed

lemma finditer_sorted:
  "sorted_wrt (\<lambda>a b. fst a + 64 \<le> fst b) (finditer pos t)"
proof (induction pos t rule: finditer.induct)
  case (1 pos)
  show ?case by simp
next
  case (2 pos c cs)
  show ?case
  proof (cases "match_here (c # cs)")
    case None
    with "2.IH"(1) show ?thesis by simp
  next
    case (Some lg)
    obtain len g where lg: "lg = (len, g)" by (cases lg)
    note mh = match_here_props[OF Some[unfolded lg]]
    have "\<forall>m\<in>set (finditer (pos + len) (drop (len - 1) cs)). pos + 64 \<le> fst m"
      using finditer_props mh(1) by fastforce
    with "2.IH"(2)[OF Some lg[symmetric]] Some lg show ?thesis by simp
  qed
qed

lemma hex_lower_ascii: "d < 16 \<Longrightarrow> unat (hex_lower d) < 0x80 \<and> is_hex_lower (unat (hex_lower d))"
  by (auto simp: hex_lower_def is_hex_lower_def unat_of_nat)

lemma and_15_lt: "unat ((w :: 32 word) AND 15) < 16"
proof -
  have "w AND 15 \<le> 15" by (rule word_and_le1)
  then have "unat (w AND 15) \<le> unat (15 :: 32 word)" by (simp only: word_le_nat_alt)
  then show ?thesis by simp
qed

lemma hex_word_ascii: "c \<in> set (hex_word w) \<Longrightarrow> unat c < 0x80 \<and> is_hex_lower (unat c)"
  unfolding hex_word_def using hex_lower_ascii[OF and_15_lt] by auto

lemma sha256_hexdigest_ascii:
  "c \<in> set (sha256_hexdigest m) \<Longrightarrow> unat c < 0x80 \<and> is_hex_lower (unat c)"
  unfolding sha256_hexdigest_def Let_def using hex_word_ascii by auto

lemma space_not_hex: "is_space c \<Longrightarrow> \<not> is_hex_lower c"
  by (auto simp: is_space_def is_hex_lower_def)

lemma finditer_no_hex: "\<forall>c\<in>set t. \<not> is_hex_lower c \<Longrightarrow> finditer pos t = []"
proof (induction t arbitrary: pos)
  case Nil
  show ?case by simp
next
  case (Cons c cs)
  then have "match_here (c # cs) = None" by (simp add: match_here_not_hex)
  with Cons show ?case by simp
qed

lemma match_here_intro:
  assumes "length h = 64" and "list_all is_hex_lower h"
    and "ws \<noteq> []" and "list_all is_space ws"
    and "p \<noteq> []" and "0x0A \<notin> set p" and "rest = [] \<or> hd rest = 0x0A"
  shows "match_here (h @ ws @ 0x2F # p @ rest) = Some (64 + length ws + 1 + length p, 0x2F # p)"
proof -
  have ns: "\<not> is_space 0x2F" by (simp add: is_space_def)
  have tw: "takeWhile is_space (ws @ 0x2F # p @ rest) = ws"
    using assms(4) ns by (simp add: takeWhile_tail list_all_iff)
  have dw: "dropWhile is_space (ws @ 0x2F # p @ rest) = 0x2F # p @ rest"
    using assms(4) ns by (simp add: dropWhile_append list_all_iff)
  have tp: "takeWhile (\<lambda>x. x \<noteq> 0x0A) (p @ rest) = p"
  proof (cases rest)
    case Nil
    with assms(6) show ?thesis by simp metis
  next
    case (Cons r rs)
    with assms(7) have "r = 0x0A" by simp
    with Cons assms(6) show ?thesis by (simp add: takeWhile_tail) metis
  qed
  show ?thesis
    unfolding match_here_def Let_def
    using assms(1,2,3,5) by (simp add: tw dw tp)
qed

lemma match_here_elim:
  assumes "match_here t = Some (len, g)"
  shows "\<exists>h ws p rest. t = h @ ws @ 0x2F # p @ rest \<and> length h = 64 \<and> list_all is_hex_lower h
           \<and> ws \<noteq> [] \<and> list_all is_space ws \<and> p \<noteq> [] \<and> 0x0A \<notin> set p
           \<and> (rest = [] \<or> hd rest = 0x0A)
           \<and> len = 64 + length ws + 1 + length p \<and> g = 0x2F # p"
proof -
  let ?h = "take 64 t"
  let ?r = "drop 64 t"
  let ?ws = "takeWhile is_space ?r"
  from assms have h: "length ?h = 64" "list_all is_hex_lower ?h"
    by (auto simp: match_here_def Let_def split: if_splits)
  from assms h have ws: "?ws \<noteq> []"
    by (auto simp: match_here_def Let_def split: if_splits)
  from assms h ws obtain c r' where dw: "dropWhile is_space ?r = c # r'"
    by (auto simp: match_here_def Let_def split: if_splits list.splits)
  let ?p = "takeWhile (\<lambda>x. x \<noteq> 0x0A) r'"
  let ?rest = "dropWhile (\<lambda>x. x \<noteq> 0x0A) r'"
  from assms h ws dw have p: "?p \<noteq> []" and c: "c = 0x2F"
    and len: "len = 64 + length ?ws + 1 + length ?p" and g: "g = c # ?p"
    by (auto simp: match_here_def Let_def split: if_splits)
  have "t = ?h @ ?r" by simp
  also have "?r = ?ws @ dropWhile is_space ?r" by simp
  also have "dropWhile is_space ?r = 0x2F # ?p @ ?rest" by (simp add: dw c)
  finally have t: "t = ?h @ ?ws @ 0x2F # ?p @ ?rest" .
  have sp: "list_all is_space ?ws" unfolding list_all_iff by (auto dest: set_takeWhileD)
  have nl: "0x0A \<notin> set ?p" by (auto dest: set_takeWhileD)
  have rest: "?rest = [] \<or> hd ?rest = 0x0A" using hd_dropWhile[of "\<lambda>x. x \<noteq> 0x0A" r'] by auto
  show ?thesis
    apply (rule exI[of _ ?h], rule exI[of _ ?ws], rule exI[of _ ?p], rule exI[of _ ?rest])
    using t h ws sp p nl rest len g c by blast
qed

lemma match_here_related:
  assumes r: "list_all2 (\<lambda>a b. a = b \<or> (is_hex_lower a \<and> is_hex_lower b)) t t'"
    and m: "match_here t = Some (len, g)"
  shows "\<exists>g'. match_here t' = Some (len, g') \<and> length g' = length g
          \<and> ((\<forall>i. 64 \<le> i \<and> i < len \<longrightarrow> t' ! i = t ! i) \<longrightarrow> g' = g)"
proof -
  let ?R = "\<lambda>a b :: nat. a = b \<or> (is_hex_lower a \<and> is_hex_lower b)"
  from match_here_elim[OF m] obtain h ws p rest where
    t: "t = h @ ws @ 0x2F # p @ rest" and h: "length h = 64" "list_all is_hex_lower h"
    and ws: "ws \<noteq> []" "list_all is_space ws" and p: "p \<noteq> []" "0x0A \<notin> set p"
    and rest: "rest = [] \<or> hd rest = 0x0A"
    and len: "len = 64 + length ws + 1 + length p" and g: "g = 0x2F # p" by blast
  from r[unfolded t] obtain h' x1 where
    1: "t' = h' @ x1" "list_all2 ?R h h'" "list_all2 ?R (ws @ 0x2F # p @ rest) x1"
    by (auto simp: list_all2_append1)
  from 1(3) obtain ws' x2 where
    2: "x1 = ws' @ x2" "list_all2 ?R ws ws'" "list_all2 ?R (0x2F # p @ rest) x2"
    by (auto simp: list_all2_append1)
  from 2(3) obtain c' x3 where
    3: "x2 = c' # x3" "?R 0x2F c'" "list_all2 ?R (p @ rest) x3"
    by (auto simp: list_all2_Cons1)
  from 3(3) obtain p' rest' where
    4: "x3 = p' @ rest'" "list_all2 ?R p p'" "list_all2 ?R rest rest'"
    by (auto simp: list_all2_append1)
  have t': "t' = h' @ ws' @ c' # p' @ rest'" by (simp add: 1 2 3 4)
  have lh: "length h' = 64" using 1(2) h(1) by (auto dest: list_all2_lengthD)
  have hh: "list_all is_hex_lower h'"
    unfolding list_all_iff
  proof
    fix x assume "x \<in> set h'"
    then obtain i where i: "i < length h'" "x = h' ! i" by (auto simp: in_set_conv_nth)
    with 1(2) have "?R (h ! i) (h' ! i)" "i < length h"
      by (auto simp: list_all2_conv_all_nth)
    moreover have "is_hex_lower (h ! i)" using h(2) \<open>i < length h\<close> by (simp add: list_all_length)
    ultimately show "is_hex_lower x" using i by auto
  qed
  have wseq: "ws' = ws"
  proof (rule nth_equalityI)
    show "length ws' = length ws" using 2(2) by (auto dest: list_all2_lengthD)
    fix i assume "i < length ws'"
    with 2(2) have a: "?R (ws ! i) (ws' ! i)" "i < length ws"
      by (auto simp: list_all2_conv_all_nth)
    with ws(2) have "is_space (ws ! i)" by (simp add: list_all_length)
    then have "\<not> is_hex_lower (ws ! i)" by (rule space_not_hex)
    with a show "ws' ! i = ws ! i" by auto
  qed
  have c': "c' = 0x2F" using 3(2) by (auto simp: is_hex_lower_def)
  have lp: "length p' = length p" using 4(2) by (auto dest: list_all2_lengthD)
  have p'ne: "p' \<noteq> []" using lp p(1) by auto
  have nl: "0x0A \<notin> set p'"
  proof
    assume "0x0A \<in> set p'"
    then obtain i where i: "i < length p'" "p' ! i = 0x0A" by (auto simp: in_set_conv_nth)
    with 4(2) have "?R (p ! i) 0x0A" "i < length p"
      by (auto simp: list_all2_conv_all_nth)
    then have "p ! i = 0x0A" by (auto simp: is_hex_lower_def)
    with \<open>i < length p\<close> p(2) show False by (metis nth_mem)
  qed
  have rest': "rest' = [] \<or> hd rest' = 0x0A"
  proof (cases rest)
    case Nil
    with 4(3) show ?thesis by simp
  next
    case (Cons a as)
    with rest have "a = 0x0A" by simp
    with Cons 4(3) obtain b bs where "rest' = b # bs" "?R 0x0A b" by (auto simp: list_all2_Cons1)
    then show ?thesis by (auto simp: is_hex_lower_def)
  qed
  have mh: "match_here t' = Some (len, 0x2F # p')"
    unfolding t' wseq c' len lp[symmetric]
    by (rule match_here_intro[OF lh hh ws p'ne nl rest'])
  have eq: "p' = p" if a: "\<forall>i. 64 \<le> i \<and> i < len \<longrightarrow> t' ! i = t ! i"
  proof (rule nth_equalityI)
    show "length p' = length p" by (rule lp)
    fix i assume i: "i < length p'"
    let ?k = "64 + length ws + 1 + i"
    have k: "64 \<le> ?k" "?k < len" using i lp len by simp_all
    have "t' ! ?k = p' ! i" unfolding t' wseq using lh i by (simp add: nth_append)
    moreover have "t ! ?k = p ! i" unfolding t using h(1) i lp by (simp add: nth_append)
    ultimately show "p' ! i = p ! i" using a k by metis
  qed
  show ?thesis using mh eq lp g by auto
qed

lemma match_here_related_None:
  assumes r: "list_all2 (\<lambda>a b. a = b \<or> (is_hex_lower a \<and> is_hex_lower b)) t t'"
    and m: "match_here t = None"
  shows "match_here t' = None"
proof (rule ccontr)
  assume "match_here t' \<noteq> None"
  then obtain len g where s: "match_here t' = Some (len, g)" by auto
  have "list_all2 (\<lambda>a b. a = b \<or> (is_hex_lower a \<and> is_hex_lower b)) t' t"
    using r by (auto simp: list_all2_conv_all_nth)
  from match_here_related[OF this s] m show False by auto
qed

lemma finditer_match:
  "m \<in> set (finditer pos t) \<Longrightarrow>
     \<exists>len. match_here (drop (fst m - pos) t) = Some (len, snd m)
       \<and> (\<forall>m'\<in>set (finditer pos t). fst m' + 64 \<le> fst m \<or> m' = m \<or> fst m + len \<le> fst m')"
proof (induction pos t rule: finditer.induct)
  case (1 pos)
  then show ?case by simp
next
  case (2 pos c cs)
  show ?case
  proof (cases "match_here (c # cs)")
    case None
    with "2.prems" have m: "m \<in> set (finditer (pos + 1) cs)" by simp
    from finditer_props[OF m] have ge: "pos + 1 \<le> fst m" by simp
    then have "fst m - pos = Suc (fst m - (pos + 1))" by simp
    then have d: "drop (fst m - pos) (c # cs) = drop (fst m - (pos + 1)) cs"
      by (simp only: drop_Suc_Cons)
    from "2.IH"(1)[OF None m] None d show ?thesis by simp
  next
    case (Some lg)
    obtain len0 g0 where lg: "lg = (len0, g0)" by (cases lg)
    note mh = match_here_props[OF Some[unfolded lg]]
    let ?F = "finditer (pos + len0) (drop (len0 - 1) cs)"
    have fi: "finditer pos (c # cs) = (pos, g0) # ?F" using Some lg by simp
    have later: "pos + len0 \<le> fst m'" if "m' \<in> set ?F" for m'
      using finditer_props[OF that] by simp
    from "2.prems" fi have "m = (pos, g0) \<or> m \<in> set ?F" by simp
    then show ?thesis
    proof
      assume m: "m = (pos, g0)"
      have "match_here (drop (fst m - pos) (c # cs)) = Some (len0, snd m)"
        using Some lg m by simp
      moreover have "\<forall>m'\<in>set (finditer pos (c # cs)).
          fst m' + 64 \<le> fst m \<or> m' = m \<or> fst m + len0 \<le> fst m'"
        unfolding fi using later m by auto
      ultimately show ?thesis by blast
    next
      assume m: "m \<in> set ?F"
      from later[OF m] have ge: "pos + len0 \<le> fst m" .
      have d: "drop (fst m - (pos + len0)) (drop (len0 - 1) cs) = drop (fst m - pos) (c # cs)"
      proof -
        have "fst m - pos = Suc (fst m - pos - 1)" using ge mh(1) by simp
        then have "drop (fst m - pos) (c # cs) = drop (fst m - pos - 1) cs"
          by (metis drop_Suc_Cons)
        moreover have "fst m - (pos + len0) + (len0 - 1) = fst m - pos - 1"
          using ge mh(1) by simp
        ultimately show ?thesis by simp
      qed
      from "2.IH"(2)[OF Some lg[symmetric] m] obtain len where
        a: "match_here (drop (fst m - pos) (c # cs)) = Some (len, snd m)"
        and b: "\<forall>m'\<in>set ?F. fst m' + 64 \<le> fst m \<or> m' = m \<or> fst m + len \<le> fst m'"
        unfolding d by blast
      have "fst (pos, g0) + 64 \<le> fst m" using ge mh(1) by simp
      with b have "\<forall>m'\<in>set (finditer pos (c # cs)).
          fst m' + 64 \<le> fst m \<or> m' = m \<or> fst m + len \<le> fst m'"
        unfolding fi by auto
      with a show ?thesis by blast
    qed
  qed
qed

lemma finditer_related:
  "list_all2 (\<lambda>a b. a = b \<or> (is_hex_lower a \<and> is_hex_lower b)) t t' \<Longrightarrow>
     map fst (finditer pos t') = map fst (finditer pos t)"
proof (induction pos t arbitrary: t' rule: finditer.induct)
  case (1 pos)
  then show ?case by simp
next
  case (2 pos c cs)
  let ?R = "\<lambda>a b :: nat. a = b \<or> (is_hex_lower a \<and> is_hex_lower b)"
  from "2.prems" obtain c' cs' where t': "t' = c' # cs'" and cs: "list_all2 ?R cs cs'"
    by (auto simp: list_all2_Cons1)
  show ?case
  proof (cases "match_here (c # cs)")
    case None
    from match_here_related_None[OF "2.prems" None] have "match_here (c' # cs') = None"
      unfolding t' .
    with None "2.IH"(1)[OF None cs] show ?thesis unfolding t' by simp
  next
    case (Some lg)
    obtain len g where lg: "lg = (len, g)" by (cases lg)
    from match_here_related[OF "2.prems" Some[unfolded lg]] obtain g' where
      s': "match_here (c' # cs') = Some (len, g')" unfolding t' by blast
    have "list_all2 ?R (drop (len - 1) cs) (drop (len - 1) cs')"
      using cs by (rule list_all2_dropI)
    from "2.IH"(2)[OF Some lg[symmetric] this] Some lg s' show ?thesis unfolding t' by simp
  qed
qed

lemma finditer_patched:
  assumes l: "length t' = length t"
    and a: "\<forall>i<length t. t' ! i = t ! i
              \<or> (is_hex_lower (t' ! i) \<and> (\<exists>m\<in>set (finditer 0 t). fst m \<le> i \<and> i < fst m + 64))"
  shows "finditer 0 t' = finditer 0 t"
proof -
  let ?R = "\<lambda>a b :: nat. a = b \<or> (is_hex_lower a \<and> is_hex_lower b)"
  have r: "list_all2 ?R t t'"
    unfolding list_all2_conv_all_nth
  proof (intro conjI allI impI)
    show "length t = length t'" using l by simp
    fix i assume i: "i < length t"
    from a i have "t' ! i = t ! i
        \<or> (is_hex_lower (t' ! i) \<and> (\<exists>m\<in>set (finditer 0 t). fst m \<le> i \<and> i < fst m + 64))"
      by blast
    then show "t ! i = t' ! i \<or> (is_hex_lower (t ! i) \<and> is_hex_lower (t' ! i))"
    proof
      assume "t' ! i = t ! i"
      then show ?thesis by simp
    next
      assume b: "is_hex_lower (t' ! i) \<and> (\<exists>m\<in>set (finditer 0 t). fst m \<le> i \<and> i < fst m + 64)"
      then obtain m where m: "m \<in> set (finditer 0 t)" "fst m \<le> i" "i < fst m + 64" by blast
      from finditer_props[OF m(1)] have "\<forall>j<64. is_hex_lower (t ! (fst m + j))" by simp
      moreover have "i - fst m < 64" using m(2,3) by simp
      ultimately have "is_hex_lower (t ! (fst m + (i - fst m)))" by blast
      moreover have "fst m + (i - fst m) = i" using m(2) by simp
      ultimately have "is_hex_lower (t ! i)" by simp
      with b show ?thesis by simp
    qed
  qed
  have pf: "map fst (finditer 0 t') = map fst (finditer 0 t)"
    using r by (rule finditer_related)
  then have len: "length (finditer 0 t') = length (finditer 0 t)"
    by (metis length_map)
  show ?thesis
  proof (rule nth_equalityI[OF len])
    fix n assume n: "n < length (finditer 0 t')"
    let ?m = "finditer 0 t ! n" and ?m' = "finditer 0 t' ! n"
    have n2: "n < length (finditer 0 t)" using n len by simp
    have fst_eq: "fst ?m' = fst ?m"
      using pf n n2 by (metis nth_map)
    have mm: "?m \<in> set (finditer 0 t)" using n2 by simp
    have mm': "?m' \<in> set (finditer 0 t')" using n by simp
    let ?st = "fst ?m"
    from finditer_match[OF mm] obtain len1 where
      m1: "match_here (drop ?st t) = Some (len1, snd ?m)"
      and sep: "\<forall>m'\<in>set (finditer 0 t). fst m' + 64 \<le> ?st \<or> m' = ?m \<or> ?st + len1 \<le> fst m'"
      by auto
    from finditer_match[OF mm'] obtain len2 where
      m2: "match_here (drop ?st t') = Some (len2, snd ?m')"
      unfolding fst_eq by auto
    from finditer_props[OF mm] have st: "?st + 64 \<le> length t" by simp
    from match_here_props(2)[OF m1] st have ll: "?st + len1 \<le> length t" by simp
    have rd: "list_all2 ?R (drop ?st t) (drop ?st t')" using r by (rule list_all2_dropI)
    have agree: "\<forall>i. 64 \<le> i \<and> i < len1 \<longrightarrow> drop ?st t' ! i = drop ?st t ! i"
    proof (intro allI impI)
      fix i assume i: "64 \<le> i \<and> i < len1"
      then have il: "?st + i < length t" using ll by simp
      have nf: "\<not> (\<exists>m\<in>set (finditer 0 t). fst m \<le> ?st + i \<and> ?st + i < fst m + 64)"
      proof
        assume "\<exists>m\<in>set (finditer 0 t). fst m \<le> ?st + i \<and> ?st + i < fst m + 64"
        then obtain m where m: "m \<in> set (finditer 0 t)" "fst m \<le> ?st + i" "?st + i < fst m + 64"
          by blast
        from sep m(1) have "fst m + 64 \<le> ?st \<or> m = ?m \<or> ?st + len1 \<le> fst m" by blast
        with m(2,3) i show False by auto
      qed
      from a il nf have "t' ! (?st + i) = t ! (?st + i)" by blast
      moreover have "?st \<le> length t" "?st \<le> length t'" using st l by simp_all
      ultimately show "drop ?st t' ! i = drop ?st t ! i" by simp
    qed
    from match_here_related[OF rd m1] agree
    have "match_here (drop ?st t') = Some (len1, snd ?m)" by blast
    with m2 have "snd ?m' = snd ?m" by simp
    with fst_eq show "?m' = ?m" by (simp add: prod_eq_iff)
  qed
qed

subsection \<open>The loop over the matches\<close>

lemma slice_assign_inplace_nth_in:
  assumes "a + length ys \<le> length xs" and "a \<le> i" and "i < a + length ys"
  shows "slice_assign xs a (a + length ys) ys ! i = ys ! (i - a)"
proof -
  have "length (take a xs) = a" using assms(1) by simp
  moreover have "i - a < length ys" "\<not> i < a" using assms(2,3) by simp_all
  ultimately show ?thesis by (simp add: slice_assign_def nth_append)
qed

lemma patch_hash_step:
  fixes m :: "nat \<times> str"
  defines "P \<equiv> \<lambda>sec. str_remove (lit ''file:'') (path sec) = str_strip (snd m)"
  assumes inb: "off + fst m + 64 \<le> length rw"
  shows "length (patch_hash secs off rw m) = length rw"
    and "i < length rw \<Longrightarrow> patch_hash secs off rw m ! i = rw ! i
           \<or> (off + fst m \<le> i \<and> i < off + fst m + 64 \<and> find P secs \<noteq> None
              \<and> unat (patch_hash secs off rw m ! i) < 0x80
              \<and> is_hex_lower (unat (patch_hash secs off rw m ! i)))"
    and "find P secs = Some sec \<Longrightarrow>
           slice (patch_hash secs off rw m) (off + fst m) (off + fst m + 64)
             = sha256_hexdigest (slice rw (data_offset sec) (data_offset sec + data_size sec))"
proof -
  show "length (patch_hash secs off rw m) = length rw"
  proof (cases "find P secs")
    case None
    then show ?thesis by (simp add: patch_hash_def Let_def P_def)
  next
    case (Some sec)
    let ?h = "sha256_hexdigest (slice rw (data_offset sec) (data_offset sec + data_size sec))"
    have lh: "length ?h = 64" by (rule sha256_hexdigest_length)
    have p: "patch_hash secs off rw m
               = slice_assign rw (off + fst m) (off + fst m + length ?h) ?h"
      using Some by (simp add: patch_hash_def Let_def P_def lh)
    have "off + fst m + length ?h \<le> length rw" using inb lh by simp
    from slice_assign_inplace_length[OF this] show ?thesis unfolding p .
  qed
  show "patch_hash secs off rw m ! i = rw ! i
           \<or> (off + fst m \<le> i \<and> i < off + fst m + 64 \<and> find P secs \<noteq> None
              \<and> unat (patch_hash secs off rw m ! i) < 0x80
              \<and> is_hex_lower (unat (patch_hash secs off rw m ! i)))" if i: "i < length rw"
  proof (cases "find P secs")
    case None
    then show ?thesis by (simp add: patch_hash_def Let_def P_def)
  next
    case (Some sec)
    let ?h = "sha256_hexdigest (slice rw (data_offset sec) (data_offset sec + data_size sec))"
    have lh: "length ?h = 64" by (rule sha256_hexdigest_length)
    have p: "patch_hash secs off rw m
               = slice_assign rw (off + fst m) (off + fst m + length ?h) ?h"
      using Some by (simp add: patch_hash_def Let_def P_def lh)
    have inb': "off + fst m + length ?h \<le> length rw" using inb lh by simp
    consider "i < off + fst m" | "off + fst m + 64 \<le> i" | "off + fst m \<le> i" "i < off + fst m + 64"
      by linarith
    then show ?thesis
    proof cases
      case 1
      then show ?thesis unfolding p using i by (simp add: slice_assign_nth_before)
    next
      case 2
      then have "off + fst m + length ?h \<le> i" using lh by simp
      from slice_assign_inplace_nth_after[OF inb' this] show ?thesis unfolding p by simp
    next
      case 3
      then have "i < off + fst m + length ?h" using lh by simp
      from slice_assign_inplace_nth_in[OF inb' 3(1) this]
      have e: "patch_hash secs off rw m ! i = ?h ! (i - (off + fst m))" unfolding p .
      have "i - (off + fst m) < length ?h" using 3 lh by simp
      then have "?h ! (i - (off + fst m)) \<in> set ?h" by (rule nth_mem)
      from sha256_hexdigest_ascii[OF this] e 3 Some show ?thesis by simp
    qed
  qed
  show "slice (patch_hash secs off rw m) (off + fst m) (off + fst m + 64)
             = sha256_hexdigest (slice rw (data_offset sec) (data_offset sec + data_size sec))"
    if f: "find P secs = Some sec"
  proof -
    let ?h = "sha256_hexdigest (slice rw (data_offset sec) (data_offset sec + data_size sec))"
    have lh: "length ?h = 64" by (rule sha256_hexdigest_length)
    have p: "patch_hash secs off rw m
               = slice_assign rw (off + fst m) (off + fst m + length ?h) ?h"
      using f by (simp add: patch_hash_def Let_def P_def lh)
    have inb': "off + fst m + length ?h \<le> length rw" using inb lh by simp
    from slice_assign_inplace_slice[OF inb'] show ?thesis unfolding p by (simp add: lh)
  qed
qed

lemma patch_fold_fields:
  fixes ms :: "(nat \<times> str) list"
  assumes "sorted_wrt (\<lambda>a b. fst a + 64 \<le> fst b) ms"
    and "\<forall>m\<in>set ms. off + fst m + 64 \<le> length rw"
  shows "length (foldl (patch_hash secs off) rw ms) = length rw
    \<and> (\<forall>i<length rw. foldl (patch_hash secs off) rw ms ! i = rw ! i
          \<or> (\<exists>m\<in>set ms. off + fst m \<le> i \<and> i < off + fst m + 64 \<and> find (\<lambda>sec. str_remove (lit ''file:'') (path sec) = str_strip (snd m)) secs \<noteq> None
                \<and> unat (foldl (patch_hash secs off) rw ms ! i) < 0x80
                \<and> is_hex_lower (unat (foldl (patch_hash secs off) rw ms ! i))))
    \<and> (\<forall>m\<in>set ms. \<forall>sec. find (\<lambda>sec. str_remove (lit ''file:'') (path sec) = str_strip (snd m)) secs = Some sec
          \<and> (\<forall>m'\<in>set ms. data_offset sec + data_size sec \<le> off + fst m'
                           \<or> off + fst m' + 64 \<le> data_offset sec)
          \<longrightarrow> slice (foldl (patch_hash secs off) rw ms) (off + fst m) (off + fst m + 64)
                = sha256_hexdigest (slice rw (data_offset sec) (data_offset sec + data_size sec)))"
  using assms
proof (induction ms arbitrary: rw)
  case Nil
  show ?case by simp
next
  case (Cons m ms)
  let ?rw1 = "patch_hash secs off rw m"
  let ?res = "foldl (patch_hash secs off) ?rw1 ms"
  have inb: "off + fst m + 64 \<le> length rw" using Cons.prems(2) by simp
  note step = patch_hash_step[OF inb, where secs = secs]
  have l1: "length ?rw1 = length rw" by (rule step(1))
  have srt: "sorted_wrt (\<lambda>a b. fst a + 64 \<le> fst b) ms"
    and later: "\<forall>m'\<in>set ms. fst m + 64 \<le> fst m'" using Cons.prems(1) by simp_all
  have inb1: "\<forall>m\<in>set ms. off + fst m + 64 \<le> length ?rw1" using Cons.prems(2) l1 by simp
  note IH = Cons.IH[OF srt inb1]
  have r: "foldl (patch_hash secs off) rw (m # ms) = ?res" by simp
  have L: "length ?res = length rw" using IH l1 by simp
  have C: "?res ! i = rw ! i
          \<or> (\<exists>m'\<in>set (m # ms). off + fst m' \<le> i \<and> i < off + fst m' + 64 \<and> find (\<lambda>sec. str_remove (lit ''file:'') (path sec) = str_strip (snd m')) secs \<noteq> None
                \<and> unat (?res ! i) < 0x80 \<and> is_hex_lower (unat (?res ! i)))"
    if i: "i < length rw" for i
  proof -
    from IH i l1 have "?res ! i = ?rw1 ! i
          \<or> (\<exists>m'\<in>set ms. off + fst m' \<le> i \<and> i < off + fst m' + 64 \<and> find (\<lambda>sec. str_remove (lit ''file:'') (path sec) = str_strip (snd m')) secs \<noteq> None
                \<and> unat (?res ! i) < 0x80 \<and> is_hex_lower (unat (?res ! i)))" by simp
    then show ?thesis
    proof
      assume e: "?res ! i = ?rw1 ! i"
      from step(2)[OF i] show ?thesis
      proof
        assume "?rw1 ! i = rw ! i"
        with e show ?thesis by simp
      next
        assume "off + fst m \<le> i \<and> i < off + fst m + 64 \<and> find (\<lambda>sec. str_remove (lit ''file:'') (path sec) = str_strip (snd m)) secs \<noteq> None
              \<and> unat (?rw1 ! i) < 0x80 \<and> is_hex_lower (unat (?rw1 ! i))"
        with e show ?thesis by auto
      qed
    next
      assume "\<exists>m'\<in>set ms. off + fst m' \<le> i \<and> i < off + fst m' + 64 \<and> find (\<lambda>sec. str_remove (lit ''file:'') (path sec) = str_strip (snd m')) secs \<noteq> None
                \<and> unat (?res ! i) < 0x80 \<and> is_hex_lower (unat (?res ! i))"
      then show ?thesis by auto
    qed
  qed
  have D: "slice ?res (off + fst m0) (off + fst m0 + 64)
                = sha256_hexdigest (slice rw (data_offset sec) (data_offset sec + data_size sec))"
    if m0: "m0 \<in> set (m # ms)" and f: "find (\<lambda>sec. str_remove (lit ''file:'') (path sec) = str_strip (snd m0)) secs = Some sec"
      and dj: "\<forall>m'\<in>set (m # ms). data_offset sec + data_size sec \<le> off + fst m'
                           \<or> off + fst m' + 64 \<le> data_offset sec" for m0 sec
  proof -
    from m0 have "m0 = m \<or> m0 \<in> set ms" by simp
    then show ?thesis
    proof
      assume e: "m0 = m"
      have "slice ?res (off + fst m) (off + fst m + 64) = slice ?rw1 (off + fst m) (off + fst m + 64)"
      proof (rule slice_eqI)
        show "length ?res = length ?rw1" using L l1 by simp
        fix k assume k: "off + fst m \<le> k" "k < off + fst m + 64" "k < length ?res"
        from IH k(3) L l1 have "?res ! k = ?rw1 ! k
          \<or> (\<exists>m'\<in>set ms. off + fst m' \<le> k \<and> k < off + fst m' + 64)" by auto
        moreover have "\<not> (\<exists>m'\<in>set ms. off + fst m' \<le> k \<and> k < off + fst m' + 64)"
          using later k(2) by fastforce
        ultimately show "?res ! k = ?rw1 ! k" by blast
      qed
      also have "\<dots> = sha256_hexdigest (slice rw (data_offset sec) (data_offset sec + data_size sec))"
        using f unfolding e by (rule step(3))
      finally show ?thesis unfolding e .
    next
      assume m0': "m0 \<in> set ms"
      from dj have dj': "\<forall>m'\<in>set ms. data_offset sec + data_size sec \<le> off + fst m'
                           \<or> off + fst m' + 64 \<le> data_offset sec" by simp
      from IH m0' f dj'
      have "slice ?res (off + fst m0) (off + fst m0 + 64)
                = sha256_hexdigest (slice ?rw1 (data_offset sec) (data_offset sec + data_size sec))"
        by blast
      moreover have "slice ?rw1 (data_offset sec) (data_offset sec + data_size sec)
           = slice rw (data_offset sec) (data_offset sec + data_size sec)"
      proof (rule slice_eqI)
        show "length ?rw1 = length rw" by (rule l1)
        fix k assume k: "data_offset sec \<le> k" "k < data_offset sec + data_size sec" "k < length ?rw1"
        from dj have "data_offset sec + data_size sec \<le> off + fst m
                           \<or> off + fst m + 64 \<le> data_offset sec" by simp
        with k have "\<not> (off + fst m \<le> k \<and> k < off + fst m + 64)" by auto
        with step(2)[of k] k(3) l1 show "?rw1 ! k = rw ! k" by auto
      qed
      ultimately show ?thesis by simp
    qed
  qed
  show ?case unfolding r using L C D by blast
qed

lemma patch_fold_at:
  fixes ms :: "(nat \<times> str) list"
  assumes "sorted_wrt (\<lambda>a b. fst a + 64 \<le> fst b) ms"
    and "\<forall>m\<in>set ms. off + fst m + 64 \<le> length rw"
    and "m \<in> set ms"
    and "find (\<lambda>sec. str_remove (lit ''file:'') (path sec) = str_strip (snd m)) secs = Some sec"
  shows "\<exists>rwm. length rwm = length rw
    \<and> (\<forall>i<length rw. i < off + fst m \<longrightarrow> rwm ! i = foldl (patch_hash secs off) rw ms ! i)
    \<and> (\<forall>i<length rw. off + fst m \<le> i \<longrightarrow> rwm ! i = rw ! i)
    \<and> slice (foldl (patch_hash secs off) rw ms) (off + fst m) (off + fst m + 64)
        = sha256_hexdigest (slice rwm (data_offset sec) (data_offset sec + data_size sec))"
  using assms(1,2,3)
proof (induction ms arbitrary: rw)
  case Nil
  then show ?case by simp
next
  case (Cons m0 ms)
  let ?rw1 = "patch_hash secs off rw m0"
  let ?res = "foldl (patch_hash secs off) ?rw1 ms"
  have inb: "off + fst m0 + 64 \<le> length rw" using Cons.prems(2) by simp
  note step = patch_hash_step[OF inb, where secs = secs]
  have l1: "length ?rw1 = length rw" by (rule step(1))
  have srt: "sorted_wrt (\<lambda>a b. fst a + 64 \<le> fst b) ms"
    and later: "\<forall>m'\<in>set ms. fst m0 + 64 \<le> fst m'" using Cons.prems(1) by simp_all
  have inb1: "\<forall>m\<in>set ms. off + fst m + 64 \<le> length ?rw1" using Cons.prems(2) l1 by simp
  note fold = patch_fold_fields[OF srt inb1, where secs = secs]
  have r: "foldl (patch_hash secs off) rw (m0 # ms) = ?res" by simp
  have L: "length ?res = length ?rw1" using fold by blast
  have early: "?res ! i = ?rw1 ! i" if "i < length rw" "i < off + fst m0 + 64" for i
  proof -
    from fold that(1) l1 have "?res ! i = ?rw1 ! i
          \<or> (\<exists>m'\<in>set ms. off + fst m' \<le> i \<and> i < off + fst m' + 64)" by auto
    moreover have "\<not> (\<exists>m'\<in>set ms. off + fst m' \<le> i \<and> i < off + fst m' + 64)"
      using later that(2) by fastforce
    ultimately show ?thesis by blast
  qed
  have before: "?rw1 ! i = rw ! i" if "i < length rw" "i < off + fst m0 \<or> off + fst m0 + 64 \<le> i" for i
    using step(2)[OF that(1)] that(2) by auto
  from Cons.prems(3) have "m = m0 \<or> m \<in> set ms" by simp
  then show ?case
  proof
    assume e: "m = m0"
    have "slice ?res (off + fst m0) (off + fst m0 + 64) = slice ?rw1 (off + fst m0) (off + fst m0 + 64)"
    proof (rule slice_eqI[OF L])
      fix q assume "off + fst m0 \<le> q" "q < off + fst m0 + 64" "q < length ?res"
      then show "?res ! q = ?rw1 ! q" using early[of q] L l1 by simp
    qed
    also have "\<dots> = sha256_hexdigest (slice rw (data_offset sec) (data_offset sec + data_size sec))"
      using assms(4) unfolding e by (rule step(3))
    finally have d: "slice ?res (off + fst m) (off + fst m + 64)
        = sha256_hexdigest (slice rw (data_offset sec) (data_offset sec + data_size sec))"
      unfolding e .
    have a: "\<forall>i<length rw. i < off + fst m \<longrightarrow> rw ! i = ?res ! i"
      using early before unfolding e by simp
    show ?thesis unfolding r
      apply (rule exI[of _ rw])
      using a d by simp
  next
    assume m': "m \<in> set ms"
    from Cons.IH[OF srt inb1 m'] obtain rwm where
      rwm: "length rwm = length ?rw1"
        "\<forall>i<length ?rw1. i < off + fst m \<longrightarrow> rwm ! i = ?res ! i"
        "\<forall>i<length ?rw1. off + fst m \<le> i \<longrightarrow> rwm ! i = ?rw1 ! i"
        "slice ?res (off + fst m) (off + fst m + 64)
           = sha256_hexdigest (slice rwm (data_offset sec) (data_offset sec + data_size sec))"
      by blast
    from later m' have lm: "fst m0 + 64 \<le> fst m" by blast
    have b: "\<forall>i<length rw. off + fst m \<le> i \<longrightarrow> rwm ! i = rw ! i"
    proof (intro allI impI)
      fix i assume i: "i < length rw" "off + fst m \<le> i"
      with lm have "off + fst m0 + 64 \<le> i" by simp
      with before[OF i(1)] rwm(3) i l1 show "rwm ! i = rw ! i" by simp
    qed
    show ?thesis unfolding r
      apply (rule exI[of _ rwm])
      using rwm(1,2,4) b l1 by simp
  qed
qed

subsection \<open>The manifest after \<^verbatim>\<open>fix_signinfo\<close>\<close>

lemma slice_slice: "q \<le> c - a \<Longrightarrow> slice (slice xs a c) p q = slice xs (a + p) (a + q)"
  by (simp add: slice_def drop_take min_def add.commute)

lemma slice_after_crc:
  assumes "12 \<le> a" and "drop 12 out = drop 12 r"
  shows "slice out a b = slice r a b"
proof -
  have "drop a out = drop (a - 12) (drop 12 out)" "drop a r = drop (a - 12) (drop 12 r)"
    using assms(1) by simp_all
  then show ?thesis using assms(2) by (simp add: slice_def)
qed

lemma find_first_index:
  "find P xs = (case first_index P xs of None \<Rightarrow> None | Some j \<Rightarrow> Some (xs ! j))"
  by (induction xs) (auto split: option.splits)

lemma parsed_data:
  assumes "parse d = Inr fw" and "j < length (sections fw)"
  shows "data (sections fw ! j)
           = slice d (data_offset (sections fw ! j))
               (data_offset (sections fw ! j) + data_size (sections fw ! j))"
proof -
  note f = parse_fields[OF assms(1)]
  from assms(2) f(5) have "j < item_num fw" by simp
  from parse_sections_nth[OF f(4) this]
  have "parse_section d j (data_offset (sections fw ! j)) = Inr (sections fw ! j)" by simp
  then show ?thesis by (rule parse_section_fields(6))
qed

lemma zeroed_head:
  assumes "i < length (slice (slice_assign d a (a + 60) (replicate 60 0)) a (a + s))" and "i < 60"
  shows "slice (slice_assign d a (a + 60) (replicate 60 (0 :: byte))) a (a + s) ! i = 0"
proof -
  let ?Z = "replicate 60 (0 :: byte)"
  let ?r = "slice_assign d a (a + 60) ?Z"
  have e: "slice ?r a (a + s) ! i = ?r ! (a + i)" using assms(1) by (rule nth_slice)
  have "i < length ?r - a" using assms(1) unfolding length_slice by simp
  then have il: "a + i < length ?r" by linarith
  show ?thesis
  proof (cases "a \<le> length d")
    case True
    then have "length (take a d) = a" by simp
    then have "?r ! (a + i) = (?Z @ drop (a + 60) d) ! i"
      by (simp add: slice_assign_def nth_append)
    also have "\<dots> = 0" using assms(2) by (simp add: nth_append)
    finally show ?thesis using e by simp
  next
    case False
    then have r: "?r = d @ ?Z" by (simp add: slice_assign_def)
    have "a + i - length d < 60" using il False unfolding r by simp
    moreover have "\<not> a + i < length d" using False by simp
    ultimately have "?r ! (a + i) = 0" unfolding r by (simp add: nth_append)
    then show ?thesis using e by simp
  qed
qed

lemma zeroed_short:
  assumes "length d < a + 60"
  shows "length (slice (slice_assign d a (a + 60) (replicate 60 (0 :: byte))) a (a + s)) \<le> 60"
  using assms by (simp add: length_slice length_slice_assign)

lemma zeroed_inplace:
  assumes "a + 60 \<le> length d"
  shows "length (slice_assign d a (a + 60) (replicate 60 (0 :: byte))) = length d"
    and "i < length d \<Longrightarrow> i < a \<or> a + 60 \<le> i
           \<Longrightarrow> slice_assign d a (a + 60) (replicate 60 (0 :: byte)) ! i = d ! i"
proof -
  let ?Z = "replicate 60 (0 :: byte)"
  have inb: "a + length ?Z \<le> length d" using assms by simp
  from slice_assign_inplace_length[OF inb]
  show "length (slice_assign d a (a + 60) ?Z) = length d" by simp
  show "slice_assign d a (a + 60) ?Z ! i = d ! i" if "i < length d" "i < a \<or> a + 60 \<le> i"
  proof (cases "i < a")
    case True
    with that(1) show ?thesis by (simp add: slice_assign_nth_before)
  next
    case False
    with that(2) have "a + length ?Z \<le> i" by simp
    from slice_assign_inplace_nth_after[OF inb this] show ?thesis by simp
  qed
qed

lemma fix_signinfo_manifest:
  assumes p: "parse d = Inr fw"
    and fi: "first_index (\<lambda>s. sublist (lit ''signinfo'') (path s)) (sections fw) = Some k"
  defines "M \<equiv> sections fw ! k"
  defines "off \<equiv> data_offset (sections fw ! k)" and "sz \<equiv> data_size (sections fw ! k)"
  defines "fw2 \<equiv> fix_signinfo fw"
  defines "D' \<equiv> data (sections (fix_signinfo fw) ! k)"
  shows "sections fw2 = (sections fw)[k := M\<lparr>data := D'\<rparr>]"
    and "D' = slice (raw fw2) off (off + sz)"
    and "take 60 D' = replicate (min 60 (length D')) 0"
    and "finditer 0 (decode_ascii_replace D')
           = finditer 0 (decode_ascii_replace
               (slice (slice_assign d off (off + 60) (replicate 60 0)) off (off + sz)))"
    and "m \<in> set (finditer 0 (decode_ascii_replace D')) \<Longrightarrow>
           60 \<le> fst m \<and> fst m + 64 \<le> length D'"
    and "m \<in> set (finditer 0 (decode_ascii_replace D')) \<Longrightarrow>
         first_index (\<lambda>s. str_remove (lit ''file:'') (path s) = str_strip (snd m)) (sections fw)
           = Some j \<Longrightarrow> j \<noteq> k \<Longrightarrow>
           slice D' (fst m) (fst m + 64) = sha256_hexdigest (data (sections fw ! j))
           \<and> slice (raw fw2) (data_offset (sections fw ! j))
                 (data_offset (sections fw ! j) + data_size (sections fw ! j))
               = data (sections fw ! j)"
    and "off + 60 \<le> length d \<Longrightarrow> length (raw fw2) = length d \<and> length D' = length (data M)"
    and "60 \<le> i \<Longrightarrow> i < length D' \<Longrightarrow>
         (\<forall>m\<in>set (finditer 0 (decode_ascii_replace D')). fst m \<le> i \<and> i < fst m + 64 \<longrightarrow>
            first_index (\<lambda>s. str_remove (lit ''file:'') (path s) = str_strip (snd m))
              (sections fw) = None) \<Longrightarrow>
           i < length (data M) \<and> D' ! i = data M ! i"
    and "j \<noteq> k \<Longrightarrow> sections fw2 ! j = sections fw ! j"
    and "m \<in> set (finditer 0 (decode_ascii_replace D')) \<Longrightarrow>
         first_index (\<lambda>s. str_remove (lit ''file:'') (path s) = str_strip (snd m)) (sections fw)
           = Some k \<Longrightarrow>
           slice D' (fst m) (fst m + 64)
             = sha256_hexdigest (take (fst m) D' @ drop (fst m) (data M))"
proof -
  let ?Z = "replicate 60 (0 :: byte)"
  define raw1 where "raw1 = slice_assign d off (off + 60) ?Z"
  define S0 where "S0 = slice raw1 off (off + sz)"
  define T0 where "T0 = decode_ascii_replace S0"
  define ms where "ms = finditer 0 T0"
  define raw2 where "raw2 = foldl (patch_hash (sections fw) off) raw1 ms"
  define T' where "T' = decode_ascii_replace D'"
  have rw: "raw fw = d" using p by (rule parse_fields)
  from first_index_Some[OF fi] have k: "k < length (sections fw)" by simp
  have fx: "fw2 = fw\<lparr>raw := raw2,
               sections := (sections fw)[k := M\<lparr>data := slice raw2 off (off + sz)\<rparr>]\<rparr>"
    unfolding fw2_def fix_signinfo_def fi
    by (simp add: Let_def rw raw2_def ms_def T0_def S0_def raw1_def off_def sz_def M_def)
  have D': "D' = slice raw2 off (off + sz)"
    unfolding D'_def fw2_def[symmetric] fx using k by simp
  have raw_fw2: "raw fw2 = raw2" unfolding fx by simp
  show "sections fw2 = (sections fw)[k := M\<lparr>data := D'\<rparr>]" unfolding D' fx by simp
  show "sections fw2 ! j = sections fw ! j" if "j \<noteq> k" unfolding fx using that by simp
  show "D' = slice (raw fw2) off (off + sz)" unfolding raw_fw2 by (rule D')
  have lT0: "length T0 = length S0" by (simp add: T0_def decode_ascii_replace_def)
  have zero: "S0 ! i = 0" if "i < length S0" "i < 60" for i
    using that unfolding S0_def raw1_def by (rule zeroed_head)
  have T0_nth: "T0 ! i = (if unat (S0 ! i) < 0x80 then unat (S0 ! i) else 0xFFFD)"
    if "i < length S0" for i
    using that by (simp add: T0_def decode_ascii_replace_def)
  have msp: "60 \<le> fst m \<and> fst m + 64 \<le> length S0" if m: "m \<in> set ms" for m
  proof -
    from finditer_props[OF m[unfolded ms_def]]
    have a: "fst m + 64 \<le> length S0" and b: "\<forall>j<64. is_hex_lower (T0 ! (fst m + j))"
      using lT0 by simp_all
    have "\<not> fst m < 60"
    proof
      assume c: "fst m < 60"
      from a have l: "fst m < length S0" by simp
      from b[rule_format, of 0] have "is_hex_lower (T0 ! fst m)" by simp
      moreover have "T0 ! fst m = 0" using T0_nth[OF l] zero[OF l c] by simp
      ultimately show False by (simp add: is_hex_lower_def)
    qed
    with a show ?thesis by simp
  qed
  have lS0: "length S0 = min sz (length raw1 - off)" by (simp add: S0_def length_slice)
  have inb: "off + fst m + 64 \<le> length raw1" and insz: "fst m + 64 \<le> sz" if m: "m \<in> set ms" for m
  proof -
    from msp[OF m] lS0 have "fst m + 64 \<le> sz" "fst m + 64 \<le> length raw1 - off" by simp_all
    then show "off + fst m + 64 \<le> length raw1" "fst m + 64 \<le> sz" by linarith+
  qed
  have srt: "sorted_wrt (\<lambda>a b. fst a + 64 \<le> fst b) ms" unfolding ms_def by (rule finditer_sorted)
  have inb': "\<forall>m\<in>set ms. off + fst m + 64 \<le> length raw1" using inb by blast
  note fold = patch_fold_fields[OF srt inb', where secs = "sections fw", folded raw2_def]
  from fold have L2: "length raw2 = length raw1" by blast
  from fold have C: "raw2 ! i = raw1 ! i
          \<or> (\<exists>m\<in>set ms. off + fst m \<le> i \<and> i < off + fst m + 64
                \<and> find (\<lambda>sec. str_remove (lit ''file:'') (path sec) = str_strip (snd m))
                     (sections fw) \<noteq> None
                \<and> unat (raw2 ! i) < 0x80 \<and> is_hex_lower (unat (raw2 ! i)))"
    if "i < length raw1" for i using that by blast
  from fold have Dg: "slice raw2 (off + fst m) (off + fst m + 64)
                = sha256_hexdigest (slice raw1 (data_offset sec) (data_offset sec + data_size sec))"
    if "m \<in> set ms" "find (\<lambda>sec. str_remove (lit ''file:'') (path sec) = str_strip (snd m))
                     (sections fw) = Some sec"
       "\<forall>m'\<in>set ms. data_offset sec + data_size sec \<le> off + fst m'
                           \<or> off + fst m' + 64 \<le> data_offset sec" for m sec
    using that by blast
  have lD': "length D' = length S0" unfolding D' S0_def by (simp add: length_slice L2)
  have nth: "D' ! i = raw2 ! (off + i)" "S0 ! i = raw1 ! (off + i)" "off + i < length raw1"
    if i: "i < length S0" for i
  proof -
    from i lD' have "i < length (slice raw2 off (off + sz))" unfolding D' by simp
    then show "D' ! i = raw2 ! (off + i)" unfolding D' by (rule nth_slice)
    from i show "S0 ! i = raw1 ! (off + i)" unfolding S0_def by (rule nth_slice)
    from i lS0 have "i < length raw1 - off" by simp
    then show "off + i < length raw1" by linarith
  qed
  have rel: "D' ! i = S0 ! i
          \<or> (\<exists>m\<in>set ms. fst m \<le> i \<and> i < fst m + 64
                \<and> find (\<lambda>sec. str_remove (lit ''file:'') (path sec) = str_strip (snd m))
                     (sections fw) \<noteq> None
                \<and> unat (D' ! i) < 0x80 \<and> is_hex_lower (unat (D' ! i)))"
    if i: "i < length S0" for i
  proof -
    note n = nth[OF i]
    from C[OF n(3)] show ?thesis
    proof
      assume "raw2 ! (off + i) = raw1 ! (off + i)"
      then show ?thesis using n by simp
    next
      assume "\<exists>m\<in>set ms. off + fst m \<le> off + i \<and> off + i < off + fst m + 64
                \<and> find (\<lambda>sec. str_remove (lit ''file:'') (path sec) = str_strip (snd m))
                     (sections fw) \<noteq> None
                \<and> unat (raw2 ! (off + i)) < 0x80 \<and> is_hex_lower (unat (raw2 ! (off + i)))"
      then obtain m where "m \<in> set ms" "fst m \<le> i" "i < fst m + 64"
        "find (\<lambda>sec. str_remove (lit ''file:'') (path sec) = str_strip (snd m))
                     (sections fw) \<noteq> None"
        "unat (raw2 ! (off + i)) < 0x80" "is_hex_lower (unat (raw2 ! (off + i)))" by auto
      then show ?thesis unfolding n(1) by blast
    qed
  qed
  have lT': "length T' = length T0" by (simp add: T'_def T0_def decode_ascii_replace_def lD')
  have inv: "finditer 0 T' = finditer 0 T0"
  proof (rule finditer_patched[OF lT'], intro allI impI)
    fix i assume "i < length T0"
    then have i: "i < length S0" using lT0 by simp
    then have i': "i < length D'" using lD' by simp
    have T'_nth: "T' ! i = (if unat (D' ! i) < 0x80 then unat (D' ! i) else 0xFFFD)"
      using i' by (simp add: T'_def decode_ascii_replace_def)
    from rel[OF i]
    show "T' ! i = T0 ! i
       \<or> (is_hex_lower (T' ! i) \<and> (\<exists>m\<in>set (finditer 0 T0). fst m \<le> i \<and> i < fst m + 64))"
    proof
      assume "D' ! i = S0 ! i"
      then show ?thesis using T'_nth T0_nth[OF i] by simp
    next
      assume "\<exists>m\<in>set ms. fst m \<le> i \<and> i < fst m + 64
                \<and> find (\<lambda>sec. str_remove (lit ''file:'') (path sec) = str_strip (snd m))
                     (sections fw) \<noteq> None
                \<and> unat (D' ! i) < 0x80 \<and> is_hex_lower (unat (D' ! i))"
      then show ?thesis using T'_nth unfolding ms_def by auto
    qed
  qed
  then show "finditer 0 (decode_ascii_replace D')
           = finditer 0 (decode_ascii_replace
               (slice (slice_assign d off (off + 60) (replicate 60 0)) off (off + sz)))"
    unfolding T'_def T0_def S0_def raw1_def .
  from inv have inv': "finditer 0 (decode_ascii_replace D') = ms" unfolding T'_def ms_def .
  show "take 60 D' = replicate (min 60 (length D')) 0"
  proof (rule nth_equalityI)
    show "length (take 60 D') = length (replicate (min 60 (length D')) (0 :: byte))"
      by (simp add: min.commute)
    fix i assume "i < length (take 60 D')"
    then have i: "i < 60" "i < length D'" by simp_all
    then have iS: "i < length S0" using lD' by simp
    from rel[OF iS] have "D' ! i = S0 ! i"
    proof
      assume "D' ! i = S0 ! i" then show ?thesis .
    next
      assume "\<exists>m\<in>set ms. fst m \<le> i \<and> i < fst m + 64
                \<and> find (\<lambda>sec. str_remove (lit ''file:'') (path sec) = str_strip (snd m))
                     (sections fw) \<noteq> None
                \<and> unat (D' ! i) < 0x80 \<and> is_hex_lower (unat (D' ! i))"
      then obtain m where "m \<in> set ms" "fst m \<le> i" by blast
      with msp[of m] i(1) show ?thesis by simp
    qed
    with zero[OF iS i(1)] i show "take 60 D' ! i = replicate (min 60 (length D')) 0 ! i" by simp
  qed
  show "60 \<le> fst m \<and> fst m + 64 \<le> length D'" if "m \<in> set (finditer 0 (decode_ascii_replace D'))"
    using that msp[of m] unfolding inv' lD' by simp
  have inplace: "off + 60 \<le> length d" if "60 < length S0"
  proof (rule ccontr)
    assume "\<not> off + 60 \<le> length d"
    then have "length d < off + 60" by simp
    from zeroed_short[OF this, of sz] that show False unfolding S0_def raw1_def by simp
  qed
  have dM: "data M = slice d off (off + sz)"
    unfolding M_def off_def sz_def using p k by (rule parsed_data)
  show "length (raw fw2) = length d \<and> length D' = length (data M)" if ib: "off + 60 \<le> length d"
  proof -
    from zeroed_inplace(1)[OF ib] have "length raw1 = length d" unfolding raw1_def .
    then show ?thesis unfolding raw_fw2 L2 lD' lS0 dM by (simp add: length_slice)
  qed
  show "slice D' (fst m) (fst m + 64) = sha256_hexdigest (data (sections fw ! j))
           \<and> slice (raw fw2) (data_offset (sections fw ! j))
                 (data_offset (sections fw ! j) + data_size (sections fw ! j))
               = data (sections fw ! j)"
    if m': "m \<in> set (finditer 0 (decode_ascii_replace D'))"
      and fj: "first_index (\<lambda>s. str_remove (lit ''file:'') (path s) = str_strip (snd m))
                 (sections fw) = Some j" and jk: "j \<noteq> k"
  proof -
    let ?sj = "sections fw ! j"
    let ?a = "data_offset ?sj" and ?b = "data_offset ?sj + data_size ?sj"
    from m' have m: "m \<in> set ms" unfolding inv' .
    from first_index_Some[OF fj] have j: "j < length (sections fw)" by simp
    have fnd: "find (\<lambda>sec. str_remove (lit ''file:'') (path sec) = str_strip (snd m))
                 (sections fw) = Some ?sj"
      unfolding find_first_index fj by simp
    from msp[OF m] have big: "60 < length S0" by simp
    note ib = inplace[OF big]
    note zi = zeroed_inplace[OF ib, folded raw1_def]
    from insz[OF m] msp[OF m] have sz124: "124 \<le> sz" by simp
    from sections_disjoint[OF p jk k j]
    have dj: "?b \<le> off \<or> off + sz \<le> ?a" unfolding off_def sz_def .
    have djf: "\<forall>m'\<in>set ms. ?b \<le> off + fst m' \<or> off + fst m' + 64 \<le> ?a"
    proof
      fix m' assume "m' \<in> set ms"
      from insz[OF this] dj show "?b \<le> off + fst m' \<or> off + fst m' + 64 \<le> ?a" by linarith
    qed
    have s1: "slice raw1 ?a ?b = slice d ?a ?b"
    proof (rule slice_eqI)
      show "length raw1 = length d" by (rule zi(1))
      fix q assume q: "?a \<le> q" "q < ?b" "q < length raw1"
      with dj sz124 have "q < off \<or> off + 60 \<le> q" by linarith
      with q(3) zi(1) show "raw1 ! q = d ! q" by (simp add: zi(2))
    qed
    have s2: "slice raw2 ?a ?b = slice raw1 ?a ?b"
    proof (rule slice_eqI)
      show "length raw2 = length raw1" by (rule L2)
      fix q assume q: "?a \<le> q" "q < ?b" "q < length raw2"
      then have ql: "q < length raw1" using L2 by simp
      have "\<not> (\<exists>m\<in>set ms. off + fst m \<le> q \<and> q < off + fst m + 64)"
      proof
        assume "\<exists>m\<in>set ms. off + fst m \<le> q \<and> q < off + fst m + 64"
        then obtain m1 where m1: "m1 \<in> set ms" "off + fst m1 \<le> q" "q < off + fst m1 + 64" by blast
        from djf m1(1) have "?b \<le> off + fst m1 \<or> off + fst m1 + 64 \<le> ?a" by blast
        with q m1 show False by linarith
      qed
      with C[OF ql] show "raw2 ! q = raw1 ! q" by blast
    qed
    have dj': "data ?sj = slice d ?a ?b" using p j by (rule parsed_data)
    have "slice D' (fst m) (fst m + 64) = slice raw2 (off + fst m) (off + (fst m + 64))"
      unfolding D' using insz[OF m] by (simp add: slice_slice)
    also have "\<dots> = slice raw2 (off + fst m) (off + fst m + 64)" by (simp add: add.assoc)
    also have "\<dots> = sha256_hexdigest (slice raw1 ?a ?b)" using m fnd djf by (rule Dg)
    finally have "slice D' (fst m) (fst m + 64) = sha256_hexdigest (data ?sj)"
      unfolding s1 dj' .
    moreover have "slice (raw fw2) ?a ?b = data ?sj" unfolding raw_fw2 s2 s1 dj' ..
    ultimately show ?thesis by simp
  qed
  show "i < length (data M) \<and> D' ! i = data M ! i"
    if i60: "60 \<le> i" and il: "i < length D'"
      and nf: "\<forall>m\<in>set (finditer 0 (decode_ascii_replace D')). fst m \<le> i \<and> i < fst m + 64 \<longrightarrow>
            first_index (\<lambda>s. str_remove (lit ''file:'') (path s) = str_strip (snd m))
              (sections fw) = None"
  proof -
    from il have iS: "i < length S0" using lD' by simp
    with i60 have big: "60 < length S0" by simp
    note ib = inplace[OF big]
    note zi = zeroed_inplace[OF ib, folded raw1_def]
    have lM: "length (data M) = length S0" unfolding dM lS0 zi(1) by (simp add: length_slice)
    note n = nth[OF iS]
    from rel[OF iS] have "D' ! i = S0 ! i"
    proof
      assume "D' ! i = S0 ! i" then show ?thesis .
    next
      assume "\<exists>m\<in>set ms. fst m \<le> i \<and> i < fst m + 64
                \<and> find (\<lambda>sec. str_remove (lit ''file:'') (path sec) = str_strip (snd m))
                     (sections fw) \<noteq> None
                \<and> unat (D' ! i) < 0x80 \<and> is_hex_lower (unat (D' ! i))"
      then obtain m where m: "m \<in> set ms" "fst m \<le> i" "i < fst m + 64"
        "find (\<lambda>sec. str_remove (lit ''file:'') (path sec) = str_strip (snd m))
                     (sections fw) \<noteq> None" by blast
      from nf m(1,2,3) have "first_index (\<lambda>s. str_remove (lit ''file:'') (path s) = str_strip (snd m))
              (sections fw) = None" unfolding inv' by blast
      with m(4) show ?thesis unfolding find_first_index by simp
    qed
    also have "S0 ! i = raw1 ! (off + i)" by (rule n(2))
    also have "\<dots> = d ! (off + i)" using n(3) i60 zi(1) by (simp add: zi(2))
    also have "\<dots> = data M ! i" unfolding dM using iS lM[unfolded dM] by (simp add: nth_slice)
    finally show ?thesis using iS lM by simp
  qed
  show "slice D' (fst m) (fst m + 64)
             = sha256_hexdigest (take (fst m) D' @ drop (fst m) (data M))"
    if m': "m \<in> set (finditer 0 (decode_ascii_replace D'))"
      and fk: "first_index (\<lambda>s. str_remove (lit ''file:'') (path s) = str_strip (snd m))
                 (sections fw) = Some k"
  proof -
    from m' have m: "m \<in> set ms" unfolding inv' .
    have fnd: "find (\<lambda>sec. str_remove (lit ''file:'') (path sec) = str_strip (snd m))
                 (sections fw) = Some (sections fw ! k)"
      unfolding find_first_index fk by simp
    from msp[OF m] have st: "60 \<le> fst m" "fst m + 64 \<le> length S0" by simp_all
    then have big: "60 < length S0" by simp
    note ib = inplace[OF big]
    note zi = zeroed_inplace[OF ib, folded raw1_def]
    have lM: "length (data M) = length S0" unfolding dM lS0 zi(1) by (simp add: length_slice)
    from patch_fold_at[OF srt inb' m fnd, folded raw2_def] obtain rwm where
      rwm: "length rwm = length raw1"
        "\<forall>i<length raw1. i < off + fst m \<longrightarrow> rwm ! i = raw2 ! i"
        "\<forall>i<length raw1. off + fst m \<le> i \<longrightarrow> rwm ! i = raw1 ! i"
        "slice raw2 (off + fst m) (off + fst m + 64)
           = sha256_hexdigest (slice rwm off (off + sz))"
      unfolding off_def sz_def by blast
    have lR: "length (slice rwm off (off + sz)) = length S0"
      unfolding lS0 by (simp add: length_slice rwm(1))
    have "slice rwm off (off + sz) = take (fst m) D' @ drop (fst m) (data M)"
    proof (rule nth_equalityI)
      show "length (slice rwm off (off + sz)) = length (take (fst m) D' @ drop (fst m) (data M))"
        using lR lD' lM st by simp
      fix i assume "i < length (slice rwm off (off + sz))"
      then have iS: "i < length S0" using lR by simp
      note n = nth[OF iS]
      have e: "slice rwm off (off + sz) ! i = rwm ! (off + i)"
        using iS lR by (simp add: nth_slice)
      show "slice rwm off (off + sz) ! i = (take (fst m) D' @ drop (fst m) (data M)) ! i"
      proof (cases "i < fst m")
        case True
        with rwm(2) n(3) have "rwm ! (off + i) = raw2 ! (off + i)" by simp
        with e n(1) have "slice rwm off (off + sz) ! i = D' ! i" by simp
        moreover have "(take (fst m) D' @ drop (fst m) (data M)) ! i = D' ! i"
          using True iS lD' by (simp add: nth_append)
        ultimately show ?thesis by simp
      next
        case False
        with rwm(3) n(3) have "rwm ! (off + i) = raw1 ! (off + i)" by simp
        also have "\<dots> = d ! (off + i)" using n(3) False st(1) zi(1) by (simp add: zi(2))
        also have "\<dots> = data M ! i" unfolding dM using iS lM[unfolded dM] by (simp add: nth_slice)
        finally have "slice rwm off (off + sz) ! i = data M ! i" using e by simp
        moreover have "length (take (fst m) D') = fst m" using st lD' by simp
        then have "(take (fst m) D' @ drop (fst m) (data M)) ! i = data M ! i"
          using False iS lM by (simp add: nth_append)
        ultimately show ?thesis by simp
      qed
    qed
    moreover have "slice D' (fst m) (fst m + 64) = slice raw2 (off + fst m) (off + (fst m + 64))"
      unfolding D' using insz[OF m] by (simp add: slice_slice)
    moreover have "off + (fst m + 64) = off + fst m + 64" by simp
    ultimately show ?thesis using rwm(4) by simp
  qed
qed

lemma first_index_paths:
  "map path xs = map path ys \<Longrightarrow>
     first_index (\<lambda>s. Q (path s)) xs = first_index (\<lambda>s. Q (path s)) ys"
proof (induction xs arbitrary: ys)
  case Nil
  then show ?case by simp
next
  case (Cons x xs)
  then obtain y ys' where "ys = y # ys'" "path x = path y" "map path xs = map path ys'" by auto
  with Cons.IH[of ys'] show ?case by simp
qed

subsection \<open>The image with a manifest\<close>

lemma mf_lengths:
  "length ex_header = 36" "length ex_pids = 260" "length mf_desc0 = 360"
  "length mf_desc1 = 360" "length mf_head = 60" "length mf_line1 = 76" "length mf_line2 = 74"
  "length mf_tail = 4" "length mf_image = 1230"
  by (simp_all add: ex_header_def ex_pids_def mf_desc0_def mf_desc1_def mf_head_def mf_line1_def
        mf_line2_def mf_tail_def mf_image_def)

lemmas mf_slice = slice_append1 slice_append2 slice_all mf_lengths

lemma mf_parse_section0: "parse_section mf_image 0 1016 = Inr mf_sec0"
  unfolding parse_section_Inr
  apply (simp add: SECT_DESC_START_def SECT_DESC_SIZE_def mf_lengths Let_def)
  apply (simp add: mf_image_def mf_slice)
  apply (simp add: le32_at_def nth_append mf_lengths)
  apply (simp add: slice_def mf_lengths)
  apply (simp add: mf_desc0_def mf_head_def index0_def decode_ascii_replace_def
      mf_sec0_def lit_simps classify_def suffix_to_prefix mf_lengths)
  done

lemma mf_parse_section1: "parse_section mf_image 1 1228 = Inr mf_sec1"
  unfolding parse_section_Inr
  apply (simp add: SECT_DESC_START_def SECT_DESC_SIZE_def mf_lengths Let_def)
  apply (simp add: mf_image_def mf_slice)
  apply (simp add: le32_at_def nth_append mf_lengths)
  apply (simp add: slice_def mf_lengths)
  apply (simp add: mf_desc1_def mf_tail_def index0_def decode_ascii_replace_def
      mf_sec1_def lit_simps classify_def suffix_to_prefix fmt_0x02X_def hex_upper_def mf_lengths)
  done

lemma mf_parse_sections: "parse_sections mf_image 2 0 1016 = Inr [mf_sec0, mf_sec1]"
proof -
  have n: "next_offset 1016 (data_size mf_sec0) = 1228"
    by (simp add: next_offset_def Let_def mf_sec0_def)
  have "parse_sections mf_image (Suc (Suc 0)) 0 1016 = Inr [mf_sec0, mf_sec1]"
    using mf_parse_section0 mf_parse_section1 by (simp add: bindE_def n)
  then show ?thesis by (simp add: numeral_2_eq_2)
qed

lemma mf_header_fields:
  "slice mf_image 0 4 = HWNP_MAGIC" "be32_at mf_image 4 = 16" "le32_at mf_image 8 = 0x12345678"
  "le32_at mf_image 12 = 296" "le32_at mf_image 16 = 0" "le32_at mf_image 20 = 2"
  "le32_at mf_image 24 = 1" "le32_at mf_image 28 = 360"
  by (simp_all add: le32_at_def be32_at_def mf_image_def nth_append mf_slice)
     (simp_all add: ex_header_def slice_def HWNP_MAGIC_def)

lemma mf_pid_window:
  "slice mf_image 36 296 = ex_pids"
  "drop 36 mf_image = ex_pids @ mf_desc0 @ mf_desc1 @ mf_head @ mf_line1 @ mf_line2 @ mf_tail"
  by (simp_all add: mf_image_def mf_slice)

lemma mf_decode_product_ids: "decode_product_ids mf_image = [lit ''A'', lit ''B'']"
  unfolding decode_product_ids_def
  apply (simp add: PID_OFFSET_def PID_MAX_LEN_def SECT_DESC_START_def mf_pid_window)
  apply (simp add: ex_pids_def index0_def)
  apply (simp add: mf_image_def mf_slice)
  apply (simp add: slice_def ex_pids_def decode_ascii_replace_def lit_simps)
  done

lemma mf_parse: "parse mf_image = Inr mf_fw"
  unfolding parse_Inr
  by (simp add: mf_lengths and_255 mf_header_fields SECT_DESC_START_def SECT_DESC_SIZE_def
       mf_parse_sections mf_decode_product_ids mf_fw_def)

lemma mf_fw_simps:
  "raw mf_fw = mf_image" "item_num mf_fw = 2" "sections mf_fw = [mf_sec0, mf_sec1]"
  "length (sections mf_fw) = 2" "sections mf_fw ! 0 = mf_sec0" "sections mf_fw ! 1 = mf_sec1"
  "sections mf_fw ! Suc 0 = mf_sec1"
  by (simp_all add: mf_fw_def)

lemma finditer_skip:
  "\<forall>c\<in>set pre. \<not> is_hex_lower c \<Longrightarrow> finditer pos (pre @ t) = finditer (pos + length pre) t"
proof (induction pre arbitrary: pos)
  case Nil
  show ?case by simp
next
  case (Cons c pre)
  then have "match_here (c # pre @ t) = None" by (simp add: match_here_not_hex)
  with Cons show ?case by simp
qed

lemma finditer_single:
  assumes "length h = 64" and "list_all is_hex_lower h"
    and "ws \<noteq> []" and "list_all is_space ws" and "p \<noteq> []" and "0x0A \<notin> set p"
  shows "finditer pos (h @ ws @ 0x2F # p) = [(pos, 0x2F # p)]"
proof -
  from assms(1) obtain c cs where h: "h = c # cs" by (cases h) auto
  let ?len = "64 + length ws + 1 + length p"
  have m: "match_here (c # cs @ ws @ 0x2F # p) = Some (?len, 0x2F # p)"
    using match_here_intro[OF assms, of "[]"] unfolding h by simp
  have "length (cs @ ws @ 0x2F # p) = ?len - 1" using assms(1) unfolding h by simp
  then have d: "drop (?len - 1) (cs @ ws @ 0x2F # p) = []" by simp
  have "finditer pos (c # cs @ ws @ 0x2F # p) = [(pos, 0x2F # p)]"
    by (simp only: finditer.simps m option.case prod.case d)
  then show ?thesis unfolding h by simp
qed

lemma finditer_line:
  assumes "length h = 64" and "list_all is_hex_lower h"
    and "ws \<noteq> []" and "list_all is_space ws" and "p \<noteq> []" and "0x0A \<notin> set p"
  shows "finditer pos (h @ ws @ 0x2F # p @ 0x0A # r)
           = (pos, 0x2F # p) # finditer (pos + (64 + length ws + 1 + length p) + 1) r"
proof -
  from assms(1) obtain c cs where h: "h = c # cs" by (cases h) auto
  let ?len = "64 + length ws + 1 + length p"
  have m: "match_here (c # cs @ ws @ 0x2F # p @ 0x0A # r) = Some (?len, 0x2F # p)"
    using match_here_intro[OF assms, of "0x0A # r"] unfolding h by simp
  have "length (cs @ ws @ 0x2F # p) = ?len - 1" using assms(1) unfolding h by simp
  then have "drop (?len - 1) ((cs @ ws @ 0x2F # p) @ 0x0A # r) = 0x0A # r"
    by (metis append_eq_conv_conj)
  then have d: "drop (?len - 1) (cs @ ws @ 0x2F # p @ 0x0A # r) = 0x0A # r" by simp
  have n: "match_here (0x0A # r) = None"
    by (rule match_here_not_hex) (simp add: is_hex_lower_def)
  have "finditer pos (c # cs @ ws @ 0x2F # p @ 0x0A # r)
          = (pos, 0x2F # p) # finditer (pos + ?len + 1) r"
    by (simp only: finditer.simps m option.case prod.case d n)
  then show ?thesis unfolding h by simp
qed

lemma save_sections:
  "save fw = (Inr out, fw') \<Longrightarrow> sections fw' = sections (fix_signinfo fw) \<and> raw fw' = out"
  unfolding save_def recalculate_crc_def Let_def
  by (auto split: sum.splits prod.splits)

lemma mf_first:
  "first_index (\<lambda>s. sublist (lit ''signinfo'') (path s)) (sections mf_fw) = Some 0"
proof -
  have "lit ''file:/signinfo'' = lit ''file:/'' @ lit ''signinfo'' @ []" by (simp add: lit_def)
  then have "sublist (lit ''signinfo'') (lit ''file:/signinfo'')" by (metis sublist_appendI)
  then show ?thesis by (simp add: mf_fw_simps mf_sec0_def)
qed

lemma mf_second_marker: "sublist (lit ''signinfo'') (path (sections mf_fw ! 1))"
proof -
  have "lit ''file:/signinfo2'' = lit ''file:/'' @ lit ''signinfo'' @ lit ''2''" by (simp add: lit_def)
  then have "sublist (lit ''signinfo'') (lit ''file:/signinfo2'')" by (metis sublist_appendI)
  then show ?thesis by (simp add: mf_fw_simps mf_sec1_def)
qed

lemma mf_scanned:
  "decode_ascii_replace
     (slice (slice_assign mf_image 1016 (1016 + 60) (replicate 60 0)) 1016 (1016 + 210))
   = replicate 60 0 @ replicate 64 0x30 @ [0x20] @ 0x2F # lit ''signinfo2''
       @ 0x0A # replicate 64 0x31 @ [0x20] @ 0x2F # lit ''signinfo''"
proof -
  have "slice_assign mf_image 1016 (1016 + 60) (replicate 60 0)
          = (ex_header @ ex_pids @ mf_desc0 @ mf_desc1) @ replicate 60 0
              @ (mf_line1 @ mf_line2) @ mf_tail"
    by (simp add: slice_assign_def mf_image_def mf_lengths)
  then have "slice (slice_assign mf_image 1016 (1016 + 60) (replicate 60 0)) 1016 (1016 + 210)
          = replicate 60 0 @ mf_line1 @ mf_line2"
    by (simp add: slice_def mf_lengths)
  then show ?thesis
    by (simp add: decode_ascii_replace_def mf_line1_def mf_line2_def lit_simps)
qed

lemma mf_matches:
  "finditer 0 (decode_ascii_replace (data (sections (fix_signinfo mf_fw) ! 0)))
     = [(60, lit ''/signinfo2''), (136, lit ''/signinfo'')]"
proof -
  have nh: "\<forall>c\<in>set (replicate 60 (0 :: nat)). \<not> is_hex_lower c" by (simp add: is_hex_lower_def)
  have two: "finditer 136 (replicate 64 0x31 @ [0x20] @ 0x2F # lit ''signinfo'')
               = [(136, 0x2F # lit ''signinfo'')]"
    by (rule finditer_single) (simp_all add: is_hex_lower_def is_space_def lit_simps list_all_iff)
  have "finditer 60 (replicate 64 0x30 @ [0x20] @ 0x2F # lit ''signinfo2''
               @ 0x0A # replicate 64 0x31 @ [0x20] @ 0x2F # lit ''signinfo'')
          = (60, 0x2F # lit ''signinfo2'')
              # finditer (60 + (64 + length [0x20 :: nat] + 1 + length (lit ''signinfo2'')) + 1)
                  (replicate 64 0x31 @ [0x20] @ 0x2F # lit ''signinfo'')"
    by (rule finditer_line) (simp_all add: is_hex_lower_def is_space_def lit_simps list_all_iff)
  then have one: "finditer 60 (replicate 64 0x30 @ [0x20] @ 0x2F # lit ''signinfo2''
               @ 0x0A # replicate 64 0x31 @ [0x20] @ 0x2F # lit ''signinfo'')
          = [(60, 0x2F # lit ''signinfo2''), (136, 0x2F # lit ''signinfo'')]"
    using two by (simp add: lit_def)
  have "finditer 0 (decode_ascii_replace (data (sections (fix_signinfo mf_fw) ! 0)))
          = finditer 0 (replicate 60 0 @ replicate 64 0x30 @ [0x20] @ 0x2F # lit ''signinfo2''
               @ 0x0A # replicate 64 0x31 @ [0x20] @ 0x2F # lit ''signinfo'')"
    using fix_signinfo_manifest(4)[OF mf_parse mf_first]
    by (simp add: mf_fw_simps mf_sec0_def mf_scanned[simplified])
  also have "\<dots> = [(60, 0x2F # lit ''signinfo2''), (136, 0x2F # lit ''signinfo'')]"
    using finditer_skip[OF nh, of 0] one by simp
  finally show ?thesis by (simp add: lit_simps)
qed

lemma mf_named:
  "first_index (\<lambda>s. str_remove (lit ''file:'') (path s) = str_strip (lit ''/signinfo2''))
     (sections mf_fw) = Some 1"
  "first_index (\<lambda>s. str_remove (lit ''file:'') (path s) = str_strip (lit ''/signinfo''))
     (sections mf_fw) = Some 0"
proof -
  have s: "str_strip (lit ''/signinfo2'') = lit ''/signinfo2''"
    "str_strip (lit ''/signinfo'') = lit ''/signinfo''"
    by (simp_all add: str_strip_def lit_simps is_space_def)
  have p0: "str_remove (lit ''file:'') (lit ''file:/signinfo'') = lit ''/signinfo''"
    and p1: "str_remove (lit ''file:'') (lit ''file:/signinfo2'') = lit ''/signinfo2''"
    by (simp_all add: lit_simps)
  have ne: "lit ''/signinfo'' \<noteq> lit ''/signinfo2''" by (simp add: lit_simps)
  show "first_index (\<lambda>s. str_remove (lit ''file:'') (path s) = str_strip (lit ''/signinfo2''))
     (sections mf_fw) = Some 1"
    unfolding s by (simp add: mf_fw_simps mf_sec0_def mf_sec1_def p0 p1 ne)
  show "first_index (\<lambda>s. str_remove (lit ''file:'') (path s) = str_strip (lit ''/signinfo''))
     (sections mf_fw) = Some 0"
    unfolding s by (simp add: mf_fw_simps mf_sec0_def p0)
qed

section \<open>The claims\<close>

subsection \<open>C4: the computed data offsets\<close>

text \<open>
  Claim C4. For every parsed image and every section index \<open>i\<close>, the computed
  \<^verbatim>\<open>data_offset\<close> of section \<open>i\<close> is the end of the descriptor table (the table's
  start plus \<^verbatim>\<open>item_num\<close> entries of 360 bytes) plus the sum, over the sections before
  \<open>i\<close>, of their \<^verbatim>\<open>data_size\<close> and padding. The padding of a section is what rounds its
  end up to the next multiple of 4: it is less than 4, and the end plus the padding is a
  multiple of 4.
\<close>

theorem data_offset_layout:
  assumes "parse d = Inr fw" and "i < length (sections fw)"
  shows "data_offset (sections fw ! i)
           = SECT_DESC_START + item_num fw * SECT_DESC_SIZE
             + (\<Sum>j<i. data_size (sections fw ! j) + padding (sections fw ! j))
         \<and> padding (sections fw ! i) < 4
         \<and> (data_offset (sections fw ! i) + data_size (sections fw ! i)
              + padding (sections fw ! i)) mod 4 = 0"
proof (intro conjI)
  from assms(2) have "i < item_num fw"
    using parse_fields(5)[OF assms(1)] by simp
  from parse_sections_offset[OF parse_fields(4)[OF assms(1)] this]
  show "data_offset (sections fw ! i)
           = SECT_DESC_START + item_num fw * SECT_DESC_SIZE
             + (\<Sum>j<i. data_size (sections fw ! j) + padding (sections fw ! j))" .
  show "padding (sections fw ! i) < 4" by (rule padding_lt)
  show "(data_offset (sections fw ! i) + data_size (sections fw ! i)
              + padding (sections fw ! i)) mod 4 = 0" by (rule padding_rounds_up)
qed

text \<open>The example image has two sections: the second one starts after the table
  (296 + 2 * 360), the three bytes of the first one and one byte of padding.\<close>

theorem data_offset_layout_witness:
  "parse ex_image = Inr ex_fw \<and> 1 < length (sections ex_fw)
   \<and> data_offset (sections ex_fw ! 1) = 296 + 2 * 360 + (3 + 1)
   \<and> padding (sections ex_fw ! 1) = 2"
proof -
  have len: "1 < length (sections ex_fw)" by (simp add: ex_fw_simps)
  have "padding ex_sec0 = 1" "data_size ex_sec0 = 3" "padding ex_sec1 = 2"
    by (simp_all add: padding_def ex_sec0_def ex_sec1_def)
  with data_offset_layout[OF ex_parse len] ex_parse len show ?thesis
    by (simp add: ex_fw_simps SECT_DESC_START_def SECT_DESC_SIZE_def)
qed

subsection \<open>C6: a payload that fits\<close>

text \<open>
  Claim C6 says that for every parsed image, section index \<open>i\<close> and byte string \<open>b\<close> no
  longer than the \<^verbatim>\<open>data_size\<close> of section \<open>i\<close>, \<^verbatim>\<open>set_section_data\<close> succeeds, leaves
  the payload of section \<open>i\<close> exactly \<^verbatim>\<open>data_size\<close> bytes long and leaves the bytes of
  every other section unchanged. The parser accepts an image whose data region is cut
  off, and there the slice assignment of line 189 does not write in place: on the first
  example image cut off after its descriptor table, the two bytes written for section 1
  are appended to the buffer, where they fill the slot of section 0 (which held nothing),
  and the slot of section 1 itself stays empty.
\<close>

theorem set_section_data_frame_counterexample:
  "parse tr_image = Inr tr_fw
   \<and> length [0x07 :: byte] \<le> data_size (sections tr_fw ! 1)
   \<and> data_offset (sections tr_fw ! 0) = 1016 \<and> data_size (sections tr_fw ! 0) = 3
   \<and> data_offset (sections tr_fw ! 1) = 1020 \<and> data_size (sections tr_fw ! 1) = 2
   \<and> slice (raw tr_fw) 1016 1019 = []
   \<and> (\<exists>fw'. set_section_data 1 [0x07] tr_fw = (Inr (), fw')
          \<and> raw fw' = tr_image @ [0x07, 0]
          \<and> slice (raw fw') 1016 1019 = [0x07, 0]
          \<and> slice (raw fw') 1020 1022 = []
          \<and> data (sections fw' ! 1) = [0x07, 0])"
proof -
  have i: "1 < length (sections tr_fw)" by (simp add: tr_fw_simps)
  have b: "length [0x07 :: byte] \<le> data_size (sections tr_fw ! 1)"
    by (simp add: tr_fw_simps tr_sec1_def)
  have r: "slice_assign tr_image 1020 1022 [0x07, 0] = tr_image @ [0x07, 0]"
    by (simp add: slice_assign_def tr_lengths)
  have s0: "slice tr_image 1016 1019 = []" by (simp add: slice_def tr_lengths)
  have s1: "slice (tr_image @ [0x07, 0 :: byte]) 1016 1019 = [0x07, 0]"
    "slice (tr_image @ [0x07, 0 :: byte]) 1020 1022 = []"
    by (simp_all add: slice_def tr_lengths)
  from set_section_data_ok[OF i b]
  have "\<exists>fw'. set_section_data 1 [0x07] tr_fw = (Inr (), fw')
          \<and> raw fw' = tr_image @ [0x07, 0]
          \<and> data (sections fw' ! 1) = [0x07, 0]"
    by (simp add: tr_fw_simps tr_sec1_def r)
  then obtain fw' where fw': "set_section_data 1 [0x07] tr_fw = (Inr (), fw')"
    "raw fw' = tr_image @ [0x07, 0]" "data (sections fw' ! 1) = [0x07, 0]" by blast
  from fw' s1 have "\<exists>fw'. set_section_data 1 [0x07] tr_fw = (Inr (), fw')
          \<and> raw fw' = tr_image @ [0x07, 0]
          \<and> slice (raw fw') 1016 1019 = [0x07, 0]
          \<and> slice (raw fw') 1020 1022 = []
          \<and> data (sections fw' ! 1) = [0x07, 0]" by simp
  with tr_parse b s0 show ?thesis
    by (simp add: tr_fw_simps tr_sec0_def tr_sec1_def)
qed

text \<open>
  Claim C6, amended. For every parsed image, section index \<open>i\<close> and byte string \<open>b\<close> no
  longer than the \<^verbatim>\<open>data_size\<close> of section \<open>i\<close>, \<^verbatim>\<open>set_section_data\<close> succeeds, the
  payload of section \<open>i\<close> is \<open>b\<close> padded on the right with zero bytes to exactly
  \<^verbatim>\<open>data_size\<close> bytes, and every other section object is unchanged. When the slot of
  section \<open>i\<close> lies inside the buffer (its data offset plus its data size is at most the
  length of the buffer), the buffer keeps its length, the slot holds the new payload and
  the bytes of every other section's slot are the ones they were.
\<close>

theorem set_section_data_pads_and_frames:
  assumes "parse d = Inr fw" and "i < length (sections fw)"
    and "length b \<le> data_size (sections fw ! i)"
  shows "\<exists>fw'. set_section_data (int i) b fw = (Inr (), fw')
      \<and> data (sections fw' ! i) = b @ replicate (data_size (sections fw ! i) - length b) 0
      \<and> length (data (sections fw' ! i)) = data_size (sections fw ! i)
      \<and> data_size (sections fw' ! i) = data_size (sections fw ! i)
      \<and> length (sections fw') = length (sections fw)
      \<and> (\<forall>j<length (sections fw). j \<noteq> i \<longrightarrow> sections fw' ! j = sections fw ! j)
      \<and> (data_offset (sections fw ! i) + data_size (sections fw ! i) \<le> length d \<longrightarrow>
           length (raw fw') = length d
           \<and> slice (raw fw') (data_offset (sections fw ! i))
                (data_offset (sections fw ! i) + data_size (sections fw ! i))
              = data (sections fw' ! i)
           \<and> (\<forall>j<length (sections fw). j \<noteq> i \<longrightarrow>
                 slice (raw fw') (data_offset (sections fw ! j))
                   (data_offset (sections fw ! j) + data_size (sections fw ! j))
                 = slice d (data_offset (sections fw ! j))
                     (data_offset (sections fw ! j) + data_size (sections fw ! j))))"
proof -
  define sec where "sec = sections fw ! i"
  define padded where "padded = b @ replicate (data_size sec - length b) 0"
  define sec' where "sec' =
     (if content_type sec \<in> {Xml, Shell, Text}
      then (case utf8_decode padded of
              Some t \<Rightarrow> sec\<lparr>data := padded, text_content := Some t\<rparr>
            | None \<Rightarrow> sec\<lparr>data := padded\<rparr>)
      else sec\<lparr>data := padded\<rparr>)"
  define fw' where "fw' = fw\<lparr>raw := slice_assign (raw fw) (data_offset sec)
                                 (data_offset sec + data_size sec) padded,
                           sections := (sections fw)[i := sec']\<rparr>"
  have ok: "set_section_data (int i) b fw = (Inr (), fw')"
    using set_section_data_ok[OF assms(2,3)]
    unfolding fw'_def sec'_def padded_def sec_def .
  have lp: "length padded = data_size sec"
    using assms(3) by (simp add: padded_def sec_def)
  have d': "data sec' = padded" and s': "data_size sec' = data_size sec"
    by (simp_all add: sec'_def split: option.splits)
  have secs: "sections fw' = (sections fw)[i := sec']" and raw': "raw fw' =
      slice_assign (raw fw) (data_offset sec) (data_offset sec + length padded) padded"
    by (simp_all add: fw'_def lp)
  have rw: "raw fw = d" using assms(1) by (rule parse_fields)
  have nth_i: "sections fw' ! i = sec'" using assms(2) by (simp add: secs)
  have others: "\<forall>j<length (sections fw). j \<noteq> i \<longrightarrow> sections fw' ! j = sections fw ! j"
    by (simp add: secs)
  have buf: "length (raw fw') = length d
           \<and> slice (raw fw') (data_offset sec) (data_offset sec + data_size sec) = data sec'
           \<and> (\<forall>j<length (sections fw). j \<noteq> i \<longrightarrow>
                 slice (raw fw') (data_offset (sections fw ! j))
                   (data_offset (sections fw ! j) + data_size (sections fw ! j))
                 = slice d (data_offset (sections fw ! j))
                     (data_offset (sections fw ! j) + data_size (sections fw ! j)))"
    if inb: "data_offset sec + data_size sec \<le> length d"
  proof (intro conjI allI impI)
    from inb have inb': "data_offset sec + length padded \<le> length (raw fw)"
      by (simp add: lp rw)
    show "length (raw fw') = length d"
      unfolding raw' using slice_assign_inplace_length[OF inb'] rw by simp
    show "slice (raw fw') (data_offset sec) (data_offset sec + data_size sec) = data sec'"
      unfolding raw' d' using slice_assign_inplace_slice[OF inb'] by (simp add: lp)
    fix j assume j: "j < length (sections fw)" "j \<noteq> i"
    from sections_disjoint[OF assms(1) j(2) assms(2) j(1)]
    have "data_offset (sections fw ! j) + data_size (sections fw ! j) \<le> data_offset sec
        \<or> data_offset sec + length padded \<le> data_offset (sections fw ! j)"
      by (simp add: sec_def lp)
    from slice_assign_inplace_other[OF inb' this]
    show "slice (raw fw') (data_offset (sections fw ! j))
                   (data_offset (sections fw ! j) + data_size (sections fw ! j))
                 = slice d (data_offset (sections fw ! j))
                     (data_offset (sections fw ! j) + data_size (sections fw ! j))"
      unfolding raw' rw .
  qed
  have c1: "data (sections fw' ! i) = b @ replicate (data_size (sections fw ! i) - length b) 0"
    by (simp add: nth_i d' padded_def sec_def)
  have c2: "length (data (sections fw' ! i)) = data_size (sections fw ! i)"
    by (simp add: nth_i d' lp sec_def[symmetric])
  have c3: "data_size (sections fw' ! i) = data_size (sections fw ! i)"
    by (simp add: nth_i s' sec_def)
  have c4: "length (sections fw') = length (sections fw)"
    by (simp add: secs)
  have c5: "data_offset (sections fw ! i) + data_size (sections fw ! i) \<le> length d \<longrightarrow>
           length (raw fw') = length d
           \<and> slice (raw fw') (data_offset (sections fw ! i))
                (data_offset (sections fw ! i) + data_size (sections fw ! i))
              = data (sections fw' ! i)
           \<and> (\<forall>j<length (sections fw). j \<noteq> i \<longrightarrow>
                 slice (raw fw') (data_offset (sections fw ! j))
                   (data_offset (sections fw ! j) + data_size (sections fw ! j))
                 = slice d (data_offset (sections fw ! j))
                     (data_offset (sections fw ! j) + data_size (sections fw ! j)))"
    using buf unfolding nth_i sec_def by blast
  from ok c1 c2 c3 c4 others c5 show ?thesis by blast
qed

text \<open>A one-byte payload for the two-byte flag section of the example image.\<close>

theorem set_section_data_pads_and_frames_witness:
  "\<exists>fw'. set_section_data 1 [0x07] ex_fw = (Inr (), fw')
      \<and> data (sections fw' ! 1) = [0x07, 0]
      \<and> sections fw' ! 0 = ex_sec0
      \<and> length (raw fw') = 1022
      \<and> slice (raw fw') 1016 1019 = [0x3C, 0xFF, 0x3E]"
proof -
  have i: "1 < length (sections ex_fw)" by (simp add: ex_fw_simps)
  have b: "length [0x07 :: byte] \<le> data_size (sections ex_fw ! 1)"
    by (simp add: ex_fw_simps ex_sec1_def)
  have inb: "data_offset (sections ex_fw ! 1) + data_size (sections ex_fw ! 1) \<le> length ex_image"
    by (simp add: ex_fw_simps ex_sec1_def ex_lengths)
  have s0: "slice ex_image 1016 1019 = [0x3C, 0xFF, 0x3E]"
    by (simp add: ex_image_def ex_slice) (simp add: ex_payload_def slice_def)
  from set_section_data_pads_and_frames[OF ex_parse i b] obtain fw' where
    fw': "set_section_data (int 1) [0x07] ex_fw = (Inr (), fw')"
      "data (sections fw' ! 1) = [0x07] @ replicate (data_size (sections ex_fw ! 1) - length [0x07 :: byte]) 0"
      "\<forall>j<length (sections ex_fw). j \<noteq> 1 \<longrightarrow> sections fw' ! j = sections ex_fw ! j"
      "data_offset (sections ex_fw ! 1) + data_size (sections ex_fw ! 1) \<le> length ex_image \<longrightarrow>
           length (raw fw') = length ex_image
           \<and> slice (raw fw') (data_offset (sections ex_fw ! 1))
                (data_offset (sections ex_fw ! 1) + data_size (sections ex_fw ! 1))
              = data (sections fw' ! 1)
           \<and> (\<forall>j<length (sections ex_fw). j \<noteq> 1 \<longrightarrow>
                 slice (raw fw') (data_offset (sections ex_fw ! j))
                   (data_offset (sections ex_fw ! j) + data_size (sections ex_fw ! j))
                 = slice ex_image (data_offset (sections ex_fw ! j))
                     (data_offset (sections ex_fw ! j) + data_size (sections ex_fw ! j)))"
    by blast
  from fw'(3)[rule_format, of 0] have o0: "sections fw' ! 0 = ex_sec0" by (simp add: ex_fw_simps)
  from fw'(4) inb have len: "length (raw fw') = 1022"
    and oth: "\<forall>j<length (sections ex_fw). j \<noteq> 1 \<longrightarrow>
                 slice (raw fw') (data_offset (sections ex_fw ! j))
                   (data_offset (sections ex_fw ! j) + data_size (sections ex_fw ! j))
                 = slice ex_image (data_offset (sections ex_fw ! j))
                     (data_offset (sections ex_fw ! j) + data_size (sections ex_fw ! j))"
    by (simp_all add: ex_lengths)
  from oth[rule_format, of 0] have "slice (raw fw') 1016 1019 = slice ex_image 1016 1019"
    by (simp add: ex_fw_simps ex_sec0_def)
  with s0 have sl: "slice (raw fw') 1016 1019 = [0x3C, 0xFF, 0x3E]" by simp
  from fw'(2) have d1: "data (sections fw' ! 1) = [0x07, 0]"
    by (simp add: ex_fw_simps ex_sec1_def)
  from fw'(1) o0 len sl d1 show ?thesis by auto
qed

subsection \<open>C7: a payload that is too large\<close>

text \<open>
  Claim C7. For every image, section index \<open>i\<close> and byte string \<open>b\<close> longer than the
  \<^verbatim>\<open>data_size\<close> of section \<open>i\<close>, \<^verbatim>\<open>set_section_data\<close> raises the \<^verbatim>\<open>ValueError\<close> of
  a payload that is too large (the spec's \<^verbatim>\<open>SizeError\<close>) and leaves the whole image,
  buffer, payloads and header fields, as it was.
\<close>

theorem set_section_data_too_large:
  assumes "i < length (sections fw)" and "data_size (sections fw ! i) < length b"
  shows "set_section_data (int i) b fw = (Inl ValueError_too_large, fw)"
  using assms unfolding set_section_data_def Let_def by simp

theorem set_section_data_too_large_witness:
  "parse ex_image = Inr ex_fw
   \<and> set_section_data 1 [1, 2, 3] ex_fw = (Inl ValueError_too_large, ex_fw)"
proof -
  have i: "1 < length (sections ex_fw)" by (simp add: ex_fw_simps)
  have b: "data_size (sections ex_fw ! 1) < length [1, 2, 3 :: byte]"
    by (simp add: ex_fw_simps ex_sec1_def)
  from set_section_data_too_large[OF i b] ex_parse show ?thesis by simp
qed

subsection \<open>C8: an XML section that is not UTF-8\<close>

text \<open>
  Claim C8 says that a section whose path ends with \<^verbatim>\<open>.xml\<close> and whose payload is not
  valid UTF-8 is classified as \<^verbatim>\<open>xml\<close> and has no text view. The source sets the content
  type back to \<^verbatim>\<open>binary\<close> when the decoding fails (line 143), as it does for a shell
  script: the first section of the example image is such a section, and it is not
  classified as \<^verbatim>\<open>xml\<close>.
\<close>

theorem xml_invalid_utf8_counterexample:
  "parse ex_image = Inr ex_fw \<and> suffix (lit ''.xml'') (path (sections ex_fw ! 0))
   \<and> utf8_decode (data (sections ex_fw ! 0)) = None
   \<and> content_type (sections ex_fw ! 0) \<noteq> Xml"
  using ex_parse ex_sec0_invalid_xml by (simp add: ex_fw_simps) (simp add: ex_sec0_def)

text \<open>
  Claim C8, amended. For every parsed image, a section whose path ends with \<^verbatim>\<open>.xml\<close> and
  whose payload is not valid UTF-8 is classified as \<^verbatim>\<open>binary\<close> and has no text view.
\<close>

theorem xml_invalid_utf8_is_binary:
  assumes "parse d = Inr fw" and "i < length (sections fw)"
    and "suffix (lit ''.xml'') (path (sections fw ! i))"
    and "utf8_decode (data (sections fw ! i)) = None"
  shows "content_type (sections fw ! i) = Binary \<and> text_content (sections fw ! i) = None"
proof -
  let ?s = "sections fw ! i"
  have fn: "file_name ?s = str_remove (lit ''file:'') (path ?s)"
    using assms(1,2) by (rule section_classified)
  have xml: "suffix (lit ''.xml'') (file_name ?s)"
    unfolding fn using assms(3) by (intro suffix_str_remove) (simp_all add: lit_simps)
  have "\<not> suffix (lit ''.sh'') (file_name ?s)"
  proof
    assume "suffix (lit ''.sh'') (file_name ?s)"
    then have "last (file_name ?s) = last (lit ''.sh'')"
      by (rule suffix_last) (simp add: lit_simps)
    moreover from xml have "last (file_name ?s) = last (lit ''.xml'')"
      by (rule suffix_last) (simp add: lit_simps)
    ultimately show False by (simp add: lit_simps)
  qed
  with xml assms(4) have "classify (file_name ?s) (data_size ?s) (data ?s) = (Binary, None)"
    by (simp add: classify_def)
  then show ?thesis
    using section_classified(2,3)[OF assms(1,2)] by simp
qed

theorem xml_invalid_utf8_is_binary_witness:
  "parse ex_image = Inr ex_fw \<and> suffix (lit ''.xml'') (path (sections ex_fw ! 0))
   \<and> utf8_decode (data (sections ex_fw ! 0)) = None
   \<and> content_type (sections ex_fw ! 0) = Binary \<and> text_content (sections ex_fw ! 0) = None"
proof -
  have i: "0 < length (sections ex_fw)" by (simp add: ex_fw_simps)
  have h: "suffix (lit ''.xml'') (path (sections ex_fw ! 0))"
    "utf8_decode (data (sections ex_fw ! 0)) = None"
    using ex_sec0_invalid_xml by (simp_all add: ex_fw_simps)
  from xml_invalid_utf8_is_binary[OF ex_parse i h] ex_parse h show ?thesis by simp
qed

subsection \<open>C9: small sections are flags\<close>

text \<open>
  Claim C9 says that a section whose path has no shell or XML extension and whose
  \<^verbatim>\<open>data_size\<close> is at most 4 is classified as \<^verbatim>\<open>flag\<close>. The source looks for the
  extension in the path without its \<^verbatim>\<open>file:\<close>, removed wherever it stands (line 128):
  the path \<^verbatim>\<open>a.xmlfile:\<close> of the second example image ends with no extension, yet its
  two-byte section is classified as \<^verbatim>\<open>xml\<close> and its text view is the decoded payload.
\<close>

theorem small_section_is_flag_counterexample:
  "parse ex2_image = Inr ex2_fw
   \<and> \<not> suffix (lit ''.sh'') (path (sections ex2_fw ! 0))
   \<and> \<not> suffix (lit ''.xml'') (path (sections ex2_fw ! 0))
   \<and> data_size (sections ex2_fw ! 0) \<le> 4
   \<and> content_type (sections ex2_fw ! 0) \<noteq> Flag
   \<and> text_content (sections ex2_fw ! 0) = Some (lit ''ab'')"
  using ex2_parse by (simp add: ex2_fw_simps) (simp add: ex2_sec0_def lit_simps suffix_to_prefix)

text \<open>
  Claim C9, amended. For every parsed image, a section whose path, once \<^verbatim>\<open>file:\<close> is
  removed from it, ends with neither \<^verbatim>\<open>.sh\<close> nor \<^verbatim>\<open>.xml\<close> and whose \<^verbatim>\<open>data_size\<close> is
  at most 4 is classified as \<^verbatim>\<open>flag\<close>, and its text view is its payload bytes, each
  written as \<^verbatim>\<open>0x\<close> and two uppercase hexadecimal digits, separated by single spaces;
  no decoding takes part in it.
\<close>

theorem small_section_is_flag:
  assumes "parse d = Inr fw" and "i < length (sections fw)"
    and "\<not> suffix (lit ''.sh'') (str_remove (lit ''file:'') (path (sections fw ! i)))"
    and "\<not> suffix (lit ''.xml'') (str_remove (lit ''file:'') (path (sections fw ! i)))"
    and "data_size (sections fw ! i) \<le> 4"
  shows "content_type (sections fw ! i) = Flag
       \<and> text_content (sections fw ! i)
           = Some (str_join (lit '' '') (map fmt_0x02X (data (sections fw ! i))))"
proof -
  let ?s = "sections fw ! i"
  have fn: "file_name ?s = str_remove (lit ''file:'') (path ?s)"
    using assms(1,2) by (rule section_classified)
  from assms(3,4,5) have "classify (file_name ?s) (data_size ?s) (data ?s)
      = (Flag, Some (str_join (lit '' '') (map fmt_0x02X (data ?s))))"
    unfolding fn by (simp add: classify_def)
  then show ?thesis
    using section_classified(2,3)[OF assms(1,2)] by simp
qed

theorem small_section_is_flag_witness:
  "parse ex_image = Inr ex_fw \<and> data_size (sections ex_fw ! 1) \<le> 4
   \<and> content_type (sections ex_fw ! 1) = Flag
   \<and> text_content (sections ex_fw ! 1) = Some (lit ''0x01 0xAB'')"
proof -
  have i: "1 < length (sections ex_fw)" by (simp add: ex_fw_simps)
  have h: "\<not> suffix (lit ''.sh'') (str_remove (lit ''file:'') (path (sections ex_fw ! 1)))"
    "\<not> suffix (lit ''.xml'') (str_remove (lit ''file:'') (path (sections ex_fw ! 1)))"
    "data_size (sections ex_fw ! 1) \<le> 4"
    by (simp_all add: ex_fw_simps ex_sec1_def lit_simps suffix_to_prefix)
  have r: "str_join (lit '' '') (map fmt_0x02X (data (sections ex_fw ! 1))) = lit ''0x01 0xAB''"
    by (simp add: ex_fw_simps ex_sec1_def lit_simps fmt_0x02X_def hex_upper_def)
  from small_section_is_flag[OF ex_parse i h] ex_parse h(3) r show ?thesis by simp
qed

subsection \<open>C10: the stored descriptor-entry size is never used\<close>

text \<open>
  Claim C10. For every input buffer, the parser lays the descriptor table out with the
  fixed entry size of 360 bytes, whatever the header's field at offset \<^verbatim>\<open>0x1C\<close> holds:
  two buffers that differ only in the four bytes of that field parse to the same
  sections (or fail alike), descriptor \<open>i\<close> of a parsed image is the 360 bytes at
  \<^verbatim>\<open>0x128 + i * 360\<close>, its size field is read at 8 bytes from there, and the data offsets
  start after \<^verbatim>\<open>item_num\<close> entries of 360 bytes.
\<close>

theorem descriptor_entry_size_field_unused:
  assumes "length d' = length d"
    and "\<forall>k<length d. k < 0x1C \<or> 0x20 \<le> k \<longrightarrow> d' ! k = d ! k"
  shows "map_sum id sections (parse d') = map_sum id sections (parse d)
       \<and> (\<forall>fw i. parse d = Inr fw \<longrightarrow> i < length (sections fw) \<longrightarrow>
             desc_raw (sections fw ! i) = slice d (0x128 + i * 360) (0x128 + i * 360 + 360)
           \<and> data_size (sections fw ! i) = le32_at d (0x128 + i * 360 + 8)
           \<and> data_offset (sections fw ! i) = 0x128 + length (sections fw) * 360
                + (\<Sum>j<i. data_size (sections fw ! j) + padding (sections fw ! j)))"
proof (intro conjI allI impI)
  have nth: "d' ! k = d ! k" if "k < length d" "k < 28 \<or> 32 \<le> k" for k
    using assms(2) that by auto
  have hi: "slice d' a b = slice d a b" if "32 \<le> a" for a b
    using assms(1) by (rule slice_eqI) (use that nth assms(1) in auto)
  have lo: "slice d' 0 4 = slice d 0 4"
    using assms(1) by (rule slice_eqI) (use nth assms(1) in auto)
  have n: "le32_at d' 20 = le32_at d 20" if "32 \<le> length d"
    unfolding le32_at_def using that by (simp add: nth)
  have "parse_sections d' n 0 (SECT_DESC_START + n * SECT_DESC_SIZE)
      = parse_sections d n 0 (SECT_DESC_START + n * SECT_DESC_SIZE)" for n
    by (rule parse_sections_cong[OF hi]) (simp_all add: SECT_DESC_START_def)
  then show "map_sum id sections (parse d') = map_sum id sections (parse d)"
    unfolding parse_sections_eq using lo n assms(1) by simp
next
  fix fw i
  assume p: "parse d = Inr fw" and i: "i < length (sections fw)"
  have len: "length (sections fw) = item_num fw" using p by (rule parse_fields)
  with i have "i < item_num fw" by simp
  from parse_sections_nth[OF parse_fields(4)[OF p] this]
  have s: "parse_section d i (data_offset (sections fw ! i)) = Inr (sections fw ! i)" by simp
  show "desc_raw (sections fw ! i) = slice d (0x128 + i * 360) (0x128 + i * 360 + 360)"
    using parse_section_fields(5)[OF s] by (simp add: SECT_DESC_START_def SECT_DESC_SIZE_def)
  show "data_size (sections fw ! i) = le32_at d (0x128 + i * 360 + 8)"
    using parse_section_fields(3)[OF s] by (simp add: SECT_DESC_START_def SECT_DESC_SIZE_def)
  show "data_offset (sections fw ! i) = 0x128 + length (sections fw) * 360
                + (\<Sum>j<i. data_size (sections fw ! j) + padding (sections fw ! j))"
    using parse_sections_offset[OF parse_fields(4)[OF p] \<open>i < item_num fw\<close>]
    by (simp add: len SECT_DESC_START_def SECT_DESC_SIZE_def)
qed

text \<open>The example image with \<^verbatim>\<open>0xFFFFFFFF\<close> for its entry-size field parses to the same
  two sections.\<close>

theorem descriptor_entry_size_field_unused_witness:
  "parse ex_image = Inr ex_fw
   \<and> map_sum id sections (parse (slice_assign ex_image 28 32 [0xFF, 0xFF, 0xFF, 0xFF]))
       = Inr [ex_sec0, ex_sec1]
   \<and> desc_raw (sections ex_fw ! 1) = slice ex_image (0x128 + 360) (0x128 + 360 + 360)"
proof -
  have i: "1 < length (sections ex_fw)" by (simp add: ex_fw_simps)
  from descriptor_entry_size_field_unused[OF ex_patched_field]
  have a: "map_sum id sections (parse (slice_assign ex_image 28 32 [0xFF, 0xFF, 0xFF, 0xFF]))
      = map_sum id sections (parse ex_image)"
    and b: "desc_raw (sections ex_fw ! 1) = slice ex_image (0x128 + 1 * 360) (0x128 + 1 * 360 + 360)"
    using ex_parse i by blast+
  from a b ex_parse show ?thesis by (simp add: ex_fw_simps)
qed

subsection \<open>C5: the identifier list round trip\<close>

text \<open>
  Claim C5 says that for every list of identifier strings whose joined encoding fits the
  window, \<^verbatim>\<open>set_product_ids\<close> succeeds and decoding the written window gives the list
  back. \<^verbatim>\<open>set_product_ids\<close> checks the length only: an identifier that holds the
  delimiter comes back as two identifiers, and an empty identifier does not come back.
\<close>

theorem set_product_ids_roundtrip_counterexample:
  "length (str_join (lit ''|'') [lit ''A|B''] @ lit ''|'') \<le> PID_MAX_LEN
   \<and> (\<exists>fw'. set_product_ids [lit ''A|B''] ex_fw = (Inr (), fw')
          \<and> decode_product_ids (raw fw') = [lit ''A'', lit ''B'']
          \<and> decode_product_ids (raw fw') \<noteq> [lit ''A|B''])
   \<and> length (str_join (lit ''|'') [lit ''A'', []] @ lit ''|'') \<le> PID_MAX_LEN
   \<and> (\<exists>fw'. set_product_ids [lit ''A'', []] ex_fw = (Inr (), fw')
          \<and> decode_product_ids (raw fw') = [lit ''A'']
          \<and> decode_product_ids (raw fw') \<noteq> [lit ''A'', []])"
proof -
  have s: "str_join (lit ''|'') [lit ''A|B''] @ lit ''|'' = lit ''A|B|''"
    and t: "str_join (lit ''|'') [lit ''A'', []] @ lit ''|'' = lit ''A||''"
    by (simp_all add: lit_simps)
  have cap: "length (lit ''A|B|'') \<le> PID_MAX_LEN" "length (lit ''A||'') \<le> PID_MAX_LEN"
    by (simp_all add: lit_simps PID_MAX_LEN_def SECT_DESC_START_def PID_OFFSET_def)
  have "\<exists>fw'. set_product_ids [lit ''A|B''] ex_fw = (Inr (), fw') \<and> product_ids fw' = [lit ''A|B'']
           \<and> sections fw' = sections ex_fw
           \<and> decode_product_ids (raw fw')
               = filter (\<lambda>s. s \<noteq> []) (str_split 0x7C (str_join (lit ''|'') [lit ''A|B''] @ lit ''|''))"
    by (rule set_product_ids_ok)
       (simp_all add: s, simp_all add: lit_simps PID_MAX_LEN_def SECT_DESC_START_def PID_OFFSET_def)
  then obtain fw' where fw': "set_product_ids [lit ''A|B''] ex_fw = (Inr (), fw')"
    "decode_product_ids (raw fw') = filter (\<lambda>s. s \<noteq> []) (str_split 0x7C (lit ''A|B|''))"
    unfolding s by blast
  have "filter (\<lambda>s. s \<noteq> []) (str_split 0x7C (lit ''A|B|'')) = [lit ''A'', lit ''B'']"
    by (simp add: lit_simps)
  with fw' have one: "\<exists>fw'. set_product_ids [lit ''A|B''] ex_fw = (Inr (), fw')
          \<and> decode_product_ids (raw fw') = [lit ''A'', lit ''B'']
          \<and> decode_product_ids (raw fw') \<noteq> [lit ''A|B'']"
    by (auto simp: lit_simps)
  have "\<exists>fw'. set_product_ids [lit ''A'', []] ex_fw = (Inr (), fw')
           \<and> product_ids fw' = [lit ''A'', []]
           \<and> sections fw' = sections ex_fw
           \<and> decode_product_ids (raw fw')
               = filter (\<lambda>s. s \<noteq> []) (str_split 0x7C (str_join (lit ''|'') [lit ''A'', []] @ lit ''|''))"
    by (rule set_product_ids_ok)
       (simp_all add: t, simp_all add: lit_simps PID_MAX_LEN_def SECT_DESC_START_def PID_OFFSET_def)
  then obtain fw'' where fw'': "set_product_ids [lit ''A'', []] ex_fw = (Inr (), fw'')"
    "decode_product_ids (raw fw'') = filter (\<lambda>s. s \<noteq> []) (str_split 0x7C (lit ''A||''))"
    unfolding t by blast
  have "filter (\<lambda>s. s \<noteq> []) (str_split 0x7C (lit ''A||'')) = [lit ''A'']"
    by (simp add: lit_simps)
  with fw'' have two: "\<exists>fw'. set_product_ids [lit ''A'', []] ex_fw = (Inr (), fw')
          \<and> decode_product_ids (raw fw') = [lit ''A'']
          \<and> decode_product_ids (raw fw') \<noteq> [lit ''A'', []]"
    by (auto simp: lit_simps)
  from one two cap show ?thesis unfolding s t by blast
qed

text \<open>
  Claim C5, amended. For every list of non-empty ASCII identifier strings that hold neither
  the delimiter \<^verbatim>\<open>|\<close> nor a null character and whose joined encoding, with the
  trailing delimiter, fits the window of 260 bytes, \<^verbatim>\<open>set_product_ids\<close> succeeds on
  every image, and decoding the window it wrote (up to the first null byte or the end of
  the window, split at the delimiter, empty fragments dropped) gives the same list in
  the same order.
\<close>

theorem set_product_ids_roundtrip:
  assumes "\<forall>s\<in>set ids. s \<noteq> [] \<and> (\<forall>c\<in>set s. c < 0x80 \<and> c \<noteq> 0x7C \<and> c \<noteq> 0)"
    and "length (str_join (lit ''|'') ids @ lit ''|'') \<le> PID_MAX_LEN"
  shows "\<exists>fw'. set_product_ids ids fw = (Inr (), fw')
           \<and> decode_product_ids (raw fw') = ids \<and> product_ids fw' = ids"
proof -
  let ?p = "str_join (lit ''|'') ids @ lit ''|''"
  have sub: "set ?p \<subseteq> (\<Union>s\<in>set ids. set s) \<union> {0x7C}"
    using set_str_join[of "lit ''|''" ids] by (auto simp: lit_simps)
  have a: "\<forall>c\<in>set ?p. c < 0x80" 
  proof
    fix c assume "c \<in> set ?p"
    with sub have "c \<in> (\<Union>s\<in>set ids. set s) \<or> c = 0x7C" by auto
    with assms(1) show "c < 0x80" by auto
  qed
  have z: "0 \<notin> set ?p"
  proof
    assume "0 \<in> set ?p"
    with sub have "0 \<in> (\<Union>s\<in>set ids. set s)" by auto
    with assms(1) show False by auto
  qed
  from set_product_ids_ok[OF a z assms(2), of fw] obtain fw' where
    fw': "set_product_ids ids fw = (Inr (), fw')" "product_ids fw' = ids"
      "decode_product_ids (raw fw') = filter (\<lambda>s. s \<noteq> []) (str_split 0x7C ?p)"
    by blast
  have "\<forall>s\<in>set ids. s \<noteq> [] \<and> 0x7C \<notin> set s" using assms(1) by auto
  from split_join_roundtrip[OF this]
  have "filter (\<lambda>s. s \<noteq> []) (str_split 0x7C ?p) = ids" by (simp add: lit_simps)
  with fw' show ?thesis by simp
qed

theorem set_product_ids_roundtrip_witness:
  "length (str_join (lit ''|'') [lit ''X1'', lit ''Y''] @ lit ''|'') \<le> PID_MAX_LEN
   \<and> (\<exists>fw'. set_product_ids [lit ''X1'', lit ''Y''] ex_fw = (Inr (), fw')
           \<and> decode_product_ids (raw fw') = [lit ''X1'', lit ''Y''])"
proof -
  have a: "\<forall>s\<in>set [lit ''X1'', lit ''Y'']. s \<noteq> [] \<and> (\<forall>c\<in>set s. c < 0x80 \<and> c \<noteq> 0x7C \<and> c \<noteq> 0)"
    by (simp add: lit_simps)
  have b: "length (str_join (lit ''|'') [lit ''X1'', lit ''Y''] @ lit ''|'') \<le> PID_MAX_LEN"
    by (simp add: lit_simps PID_MAX_LEN_def SECT_DESC_START_def PID_OFFSET_def)
  from set_product_ids_roundtrip[OF a b, of ex_fw] b show ?thesis by blast
qed

subsection \<open>C1: the checksum after \<^verbatim>\<open>save\<close>\<close>

text \<open>
  Claim C1. For every parsed image, \<^verbatim>\<open>save\<close> succeeds and, in the buffer it writes, the
  four bytes at offset \<^verbatim>\<open>0x08\<close> are the little-endian CRC-32 of that same final buffer
  from offset \<^verbatim>\<open>0x0C\<close> to its end, which is what the manifest patch left there; the
  header checksum and the computed checksum of the image are that value and its validity
  flag is true.
\<close>

theorem save_stamps_crc:
  assumes "parse d = Inr fw"
  shows "\<exists>out fw'. save fw = (Inr out, fw') \<and> raw fw' = out
           \<and> slice out 0x08 0x0C = pack_le32 (crc32 (drop 0x0C out))
           \<and> le32_at out 0x08 = crc32 (drop 0x0C out)
           \<and> head_crc fw' = crc32 (drop 0x0C out)
           \<and> computed_crc fw' = crc32 (drop 0x0C out)
           \<and> crc_valid fw'
           \<and> drop 0x0C out = drop 0x0C (raw (fix_signinfo fw))"
proof -
  have "raw fw = d" "32 \<le> length d" using assms by (rule parse_fields)+
  then have l: "12 \<le> length (raw fw)" by simp
  let ?r = "raw (fix_signinfo fw)"
  let ?v = "crc32 (drop 12 ?r)"
  let ?out = "take 8 ?r @ pack_le32 ?v @ drop 12 ?r"
  note s = save_ok[OF l]
  have v: "crc32 (drop 12 ?out) = ?v" using s(2) by simp
  show ?thesis
    apply (rule exI[of _ ?out])
    apply (rule exI[of _ "(fix_signinfo fw)\<lparr>raw := ?out, head_crc := ?v, computed_crc := ?v,
                                               crc_valid := True\<rparr>"])
    using s v by simp
qed

theorem save_stamps_crc_witness:
  "\<exists>out fw'. parse ex_image = Inr ex_fw \<and> save ex_fw = (Inr out, fw')
      \<and> le32_at out 8 = crc32 (drop 12 out) \<and> crc_valid fw'"
  using save_stamps_crc[OF ex_parse] ex_parse by auto

subsection \<open>C3: the structural round trip\<close>

text \<open>
  Claim C3. For every buffer that parses, the bytes \<^verbatim>\<open>save\<close> writes parse again, to the
  same structure: the same number of sections and, for each section, the same computed
  data offset and the same data size. \<^verbatim>\<open>save\<close> rewrites bytes of the manifest and the
  checksum (and may lengthen a truncated buffer), so the bytes themselves are not claimed
  to be the same.
\<close>

theorem save_parse_structure_stable:
  assumes "parse d = Inr fw"
  shows "\<exists>out fw' fw2. save fw = (Inr out, fw') \<and> parse out = Inr fw2
           \<and> item_num fw2 = item_num fw
           \<and> length (sections fw2) = length (sections fw)
           \<and> map data_offset (sections fw2) = map data_offset (sections fw)
           \<and> map data_size (sections fw2) = map data_size (sections fw)"
proof -
  let ?T = "\<lambda>n. SECT_DESC_START + n * SECT_DESC_SIZE"
  have rw: "raw fw = d" and l32: "32 \<le> length d" using assms by (rule parse_fields)+
  have n: "item_num fw = le32_at d 20 AND 0xFF" using assms by (rule parse_fields)
  have ps: "parse_sections d (item_num fw) 0 (?T (item_num fw)) = Inr (sections fw)"
    using assms by (rule parse_fields)
  have magic: "slice d 0 4 = HWNP_MAGIC" using assms unfolding parse_Inr by simp
  define r where "r = raw (fix_signinfo fw)"
  define out where "out = take 8 r @ pack_le32 (crc32 (drop 12 r)) @ drop 12 r"
  have l12: "12 \<le> length (raw fw)" using rw l32 by simp
  obtain fw' where sv: "save fw = (Inr out, fw')"
    using save_ok(1)[OF l12] unfolding out_def r_def by blast
  have len: "length d \<le> length out"
    using save_out_frame(1)[OF assms] unfolding out_def r_def .
  have nth: "out ! k = d ! k"
    if "k < ?T (item_num fw)" "k < length d" "k < 8 \<or> 12 \<le> k" for k
    using save_out_frame(2)[OF assms that] unfolding out_def r_def .
  have T296: "296 \<le> ?T (item_num fw)" by (simp add: SECT_DESC_START_def)
  have m': "slice out 0 4 = HWNP_MAGIC"
  proof -
    have "slice out 0 4 = take 4 out" by (simp add: slice_def)
    also have "\<dots> = take 4 d"
    proof (rule nth_equalityI)
      show "length (take 4 out) = length (take 4 d)" using len l32 by simp
      fix k assume "k < length (take 4 out)"
      then have "k < 4" by simp
      then show "take 4 out ! k = take 4 d ! k" using nth[of k] T296 l32 by simp
    qed
    also have "\<dots> = HWNP_MAGIC" using magic by (simp add: slice_def)
    finally show ?thesis .
  qed
  have n': "le32_at out 20 = le32_at d 20"
    by (rule le32_at_cong) (use nth T296 l32 in auto)
  have sz: "le32_at out (?T k + 8) = le32_at d (?T k + 8)" if "k < item_num fw" for k
  proof (rule le32_at_cong)
    fix j :: nat assume j: "j < 4"
    have a: "?T k + 12 \<le> length d" using assms that by (rule parsed_descriptor_in_buffer)
    have "Suc k * SECT_DESC_SIZE \<le> item_num fw * SECT_DESC_SIZE"
      using that by (intro mult_le_mono1) simp
    then have "?T (Suc k) \<le> ?T (item_num fw)" by simp
    then have b: "?T k + 8 + j < ?T (item_num fw)" using j by (simp add: SECT_DESC_SIZE_def)
    from a j have c: "?T k + 8 + j < length d" by simp
    have "12 \<le> ?T k + 8 + j" by (simp add: SECT_DESC_START_def)
    with b c show "out ! (?T k + 8 + j) = d ! (?T k + 8 + j)" by (intro nth) auto
  qed
  have "item_num fw = 0 \<or> ?T (0 + item_num fw - 1) + 12 \<le> length out"
  proof (cases "item_num fw")
    case 0
    then show ?thesis by simp
  next
    case (Suc m)
    then have "m < item_num fw" by simp
    from parsed_descriptor_in_buffer(1)[OF assms this] len Suc show ?thesis by simp
  qed
  from parse_sections_ok[OF this] obtain secs2 where
    ps2: "parse_sections out (item_num fw) 0 (?T (item_num fw)) = Inr secs2" by blast
  have lay: "map data_size secs2 = map data_size (sections fw)
           \<and> map data_offset secs2 = map data_offset (sections fw)"
    by (rule parse_sections_layout_cong[OF ps ps2]) (simp add: sz)
  define fw2 where "fw2 = \<lparr> raw = out, payload_size = be32_at out 4, head_crc = le32_at out 8,
       head_len = le32_at out 12, file_crc = le32_at out 16,
       item_num = le32_at out 20 AND 0xFF, version = le32_at out 24,
       item_desc_size = le32_at out 28, product_ids = decode_product_ids out,
       computed_crc = crc32 (drop 12 out),
       crc_valid = (crc32 (drop 12 out) = le32_at out 8), sections = secs2 \<rparr>"
  have p2: "parse out = Inr fw2"
    unfolding parse_Inr using m' len l32 ps2 by (simp add: n' n[symmetric] fw2_def)
  have i2: "item_num fw2 = item_num fw" by (simp add: fw2_def n' n)
  have s2: "sections fw2 = secs2" by (simp add: fw2_def)
  have l2: "length (sections fw2) = length (sections fw)"
    using parse_sections_length[OF ps2] parse_sections_length[OF ps] s2 by simp
  from sv p2 i2 l2 lay show ?thesis unfolding s2[symmetric] by blast
qed

theorem save_parse_structure_stable_witness:
  "\<exists>out fw' fw2. parse ex_image = Inr ex_fw \<and> save ex_fw = (Inr out, fw')
      \<and> parse out = Inr fw2
      \<and> map data_offset (sections fw2) = [1016, 1020]
      \<and> map data_size (sections fw2) = [3, 2]"
proof -
  have "map data_offset (sections ex_fw) = [1016, 1020]" "map data_size (sections ex_fw) = [3, 2]"
    by (simp_all add: ex_fw_simps ex_sec0_def ex_sec1_def)
  with save_parse_structure_stable[OF ex_parse] ex_parse show ?thesis by metis
qed

subsection \<open>C2: the manifest after \<^verbatim>\<open>save\<close>\<close>

text \<open>
  Claim C2 says that for every parsed image containing a section whose path contains the
  marker \<^verbatim>\<open>signinfo\<close>, after \<^verbatim>\<open>save\<close> that section's first 60 payload bytes are all zero,
  and every line in it made of 64 lowercase hexadecimal digits, whitespace and a path that
  is the path of some section carries the SHA-256 digest of that section's current payload.
  \<^verbatim>\<open>fix_signinfo\<close> leaves its loop over the sections with the \<^verbatim>\<open>break\<close> of line 232, at the
  end of the first turn that is not skipped: only the first section whose path contains the
  marker is treated. In the image with a manifest the paths of both sections contain it;
  after \<^verbatim>\<open>save\<close> the payload of section 1 is still \<^verbatim>\<open>hi\<close>, in the section object and in
  the bytes written, and not zero.
\<close>

theorem save_second_manifest_counterexample:
  "parse mf_image = Inr mf_fw
   \<and> first_index (\<lambda>s. sublist (lit ''signinfo'') (path s)) (sections mf_fw) = Some 0
   \<and> sublist (lit ''signinfo'') (path (sections mf_fw ! 1))
   \<and> data (sections mf_fw ! 1) = [0x68, 0x69]
   \<and> (\<exists>out fw'. save mf_fw = (Inr out, fw')
        \<and> path (sections fw' ! 1) = path (sections mf_fw ! 1)
        \<and> data (sections fw' ! 1) = [0x68, 0x69]
        \<and> slice out (data_offset (sections fw' ! 1))
              (data_offset (sections fw' ! 1) + data_size (sections fw' ! 1)) = [0x68, 0x69]
        \<and> take 60 (data (sections fw' ! 1))
             \<noteq> replicate (min 60 (length (data (sections fw' ! 1)))) 0)"
proof -
  have l: "12 \<le> length (raw mf_fw)" by (simp add: mf_fw_simps mf_lengths)
  let ?fw2 = "fix_signinfo mf_fw"
  let ?r = "raw ?fw2"
  let ?v = "crc32 (drop 12 ?r)"
  let ?out = "take 8 ?r @ pack_le32 ?v @ drop 12 ?r"
  let ?fw' = "?fw2\<lparr>raw := ?out, head_crc := ?v, computed_crc := ?v, crc_valid := True\<rparr>"
  note s = save_ok[OF l]
  note mf = fix_signinfo_manifest[OF mf_parse mf_first]
  have s1: "sections ?fw2 ! 1 = mf_sec1" "sections ?fw2 ! Suc 0 = mf_sec1"
    using mf(9)[of 1] by (simp_all add: mf_fw_simps)
  have m: "(60, lit ''/signinfo2'') \<in> set (finditer 0 (decode_ascii_replace
             (data (sections ?fw2 ! 0))))" unfolding mf_matches by simp
  have n: "first_index (\<lambda>s. str_remove (lit ''file:'') (path s)
              = str_strip (snd (60 :: nat, lit ''/signinfo2''))) (sections mf_fw) = Some 1"
    using mf_named(1) by simp
  from mf(6)[OF m n] have "slice ?r 1228 1230 = [0x68, 0x69]"
    by (simp add: mf_fw_simps mf_sec1_def)
  moreover have "slice ?out 1228 1230 = slice ?r 1228 1230"
    by (rule slice_after_crc[OF _ s(2)]) simp
  ultimately have o: "slice ?out 1228 1230 = [0x68, 0x69]" by simp
  have "save mf_fw = (Inr ?out, ?fw')
        \<and> path (sections ?fw' ! 1) = path (sections mf_fw ! 1)
        \<and> data (sections ?fw' ! 1) = [0x68, 0x69]
        \<and> slice ?out (data_offset (sections ?fw' ! 1))
              (data_offset (sections ?fw' ! 1) + data_size (sections ?fw' ! 1)) = [0x68, 0x69]
        \<and> take 60 (data (sections ?fw' ! 1))
             \<noteq> replicate (min 60 (length (data (sections ?fw' ! 1)))) 0"
    using s(1) o by (simp add: s1 mf_sec1_def mf_fw_simps)
  then have "\<exists>out fw'. save mf_fw = (Inr out, fw')
        \<and> path (sections fw' ! 1) = path (sections mf_fw ! 1)
        \<and> data (sections fw' ! 1) = [0x68, 0x69]
        \<and> slice out (data_offset (sections fw' ! 1))
              (data_offset (sections fw' ! 1) + data_size (sections fw' ! 1)) = [0x68, 0x69]
        \<and> take 60 (data (sections fw' ! 1))
             \<noteq> replicate (min 60 (length (data (sections fw' ! 1)))) 0"
    by blast
  moreover have "data (sections mf_fw ! 1) = [0x68, 0x69]" by (simp add: mf_fw_simps mf_sec1_def)
  ultimately show ?thesis using mf_parse mf_first mf_second_marker by blast
qed

text \<open>
  Claim C2, amended. For every parsed image and the first section \<open>k\<close> whose path contains
  the marker \<^verbatim>\<open>signinfo\<close>, \<^verbatim>\<open>save\<close> succeeds and leaves every path as it was, and afterwards:
  the payload of section \<open>k\<close> is what its slot holds in the bytes written; its first 60
  bytes (all of them if it is shorter) are zero; every match of the pattern (64 lowercase
  hexadecimal digits, whitespace, a slash and the rest of the line) that the scan from the
  left finds in the payload decoded as ASCII starts at byte 60 or later and has its 64
  digits inside the payload. The section a match names is the first one whose path without
  \<^verbatim>\<open>file:\<close> is the stripped path of the match. When it is a section \<open>j\<close> other than \<open>k\<close>,
  the 64 digits are the lowercase hexadecimal SHA-256 digest of the payload of section
  \<open>j\<close>, which is also what the slot of section \<open>j\<close> holds in the bytes written. When it is
  section \<open>k\<close> itself, the 64 digits are the digest of the payload as it stood when the
  line was reached: the saved bytes before the digits, the bytes read from the image from
  there on. When the first 60 bytes of the slot of section \<open>k\<close> lie inside the image, the
  buffer and the payload keep their lengths; and every byte of the payload from byte 60 on
  that is not one of the 64 digits of a match naming a section is the byte that was there
  before.
\<close>

theorem save_fixes_first_manifest:
  assumes "parse d = Inr fw"
    and "first_index (\<lambda>s. sublist (lit ''signinfo'') (path s)) (sections fw) = Some k"
  shows "\<exists>out fw'. save fw = (Inr out, fw') \<and>
     (let off = data_offset (sections fw ! k);
          sz = data_size (sections fw ! k);
          old = data (sections fw ! k);
          new = data (sections fw' ! k);
          matches = finditer 0 (decode_ascii_replace new);
          named = (\<lambda>m. first_index
                     (\<lambda>s. str_remove (lit ''file:'') (path s) = str_strip (snd m)) (sections fw'))
      in map path (sections fw') = map path (sections fw)
       \<and> new = slice out off (off + sz)
       \<and> take 60 new = replicate (min 60 (length new)) 0
       \<and> (\<forall>m\<in>set matches. 60 \<le> fst m \<and> fst m + 64 \<le> length new
             \<and> (\<forall>j. named m = Some j \<and> j \<noteq> k \<longrightarrow>
                   slice new (fst m) (fst m + 64) = sha256_hexdigest (data (sections fw' ! j))
                   \<and> data (sections fw' ! j)
                       = slice out (data_offset (sections fw' ! j))
                           (data_offset (sections fw' ! j) + data_size (sections fw' ! j)))
             \<and> (named m = Some k \<longrightarrow>
                   slice new (fst m) (fst m + 64)
                     = sha256_hexdigest (take (fst m) new @ drop (fst m) old)))
       \<and> (off + 60 \<le> length d \<longrightarrow> length out = length d \<and> length new = length old)
       \<and> (\<forall>i. 60 \<le> i \<and> i < length new
               \<and> (\<forall>m\<in>set matches. fst m \<le> i \<and> i < fst m + 64 \<longrightarrow> named m = None)
               \<longrightarrow> i < length old \<and> new ! i = old ! i))"
proof -
  note p = assms(1) and fi = assms(2)
  have rw: "raw fw = d" and l32: "32 \<le> length d" using p by (rule parse_fields)+
  then have l: "12 \<le> length (raw fw)" by simp
  let ?fw2 = "fix_signinfo fw"
  let ?r = "raw ?fw2"
  let ?v = "crc32 (drop 12 ?r)"
  let ?out = "take 8 ?r @ pack_le32 ?v @ drop 12 ?r"
  let ?fw' = "?fw2\<lparr>raw := ?out, head_crc := ?v, computed_crc := ?v, crc_valid := True\<rparr>"
  note s = save_ok[OF l]
  have secs: "sections ?fw' = sections ?fw2" by simp
  note mf = fix_signinfo_manifest[OF p fi]
  from first_index_Some[OF fi] have k: "k < length (sections fw)" by simp
  have paths: "map path (sections ?fw2) = map path (sections fw)" by (rule fix_signinfo_sections)
  have named: "first_index (\<lambda>s. str_remove (lit ''file:'') (path s) = str_strip g) (sections ?fw2)
      = first_index (\<lambda>s. str_remove (lit ''file:'') (path s) = str_strip g) (sections fw)" for g
    using paths by (rule first_index_paths)
  have off12: "12 \<le> data_offset (sections fw ! j)" if "j < length (sections fw)" for j
  proof -
    from that have "sections fw ! j \<in> set (sections fw)" by simp
    from parsed_offset_ge[OF p this] show ?thesis by (simp add: SECT_DESC_START_def)
  qed
  have sl: "slice ?out (data_offset (sections fw ! j)) b = slice ?r (data_offset (sections fw ! j)) b"
    if "j < length (sections fw)" for j b
    using off12[OF that] s(2) by (rule slice_after_crc)
  have other: "sections ?fw2 ! j = sections fw ! j" if "j \<noteq> k" for j
    using that by (rule mf(9))
  have c1: "data (sections ?fw2 ! k) = slice ?out (data_offset (sections fw ! k))
              (data_offset (sections fw ! k) + data_size (sections fw ! k))"
    unfolding sl[OF k] by (rule mf(2))
  have c3: "60 \<le> fst m \<and> fst m + 64 \<le> length (data (sections ?fw2 ! k))
             \<and> (\<forall>j. first_index (\<lambda>s. str_remove (lit ''file:'') (path s) = str_strip (snd m))
                      (sections ?fw2) = Some j \<and> j \<noteq> k \<longrightarrow>
                   slice (data (sections ?fw2 ! k)) (fst m) (fst m + 64)
                     = sha256_hexdigest (data (sections ?fw2 ! j))
                   \<and> data (sections ?fw2 ! j)
                       = slice ?out (data_offset (sections ?fw2 ! j))
                           (data_offset (sections ?fw2 ! j) + data_size (sections ?fw2 ! j)))
             \<and> (first_index (\<lambda>s. str_remove (lit ''file:'') (path s) = str_strip (snd m))
                      (sections ?fw2) = Some k \<longrightarrow>
                   slice (data (sections ?fw2 ! k)) (fst m) (fst m + 64)
                     = sha256_hexdigest
                         (take (fst m) (data (sections ?fw2 ! k))
                            @ drop (fst m) (data (sections fw ! k))))"
    if m: "m \<in> set (finditer 0 (decode_ascii_replace (data (sections ?fw2 ! k))))" for m
  proof (intro conjI allI impI)
    from mf(5)[OF m] show "60 \<le> fst m" "fst m + 64 \<le> length (data (sections ?fw2 ! k))"
      by simp_all
    fix j
    assume a: "first_index (\<lambda>s. str_remove (lit ''file:'') (path s) = str_strip (snd m))
                      (sections ?fw2) = Some j \<and> j \<noteq> k"
    then have fj: "first_index (\<lambda>s. str_remove (lit ''file:'') (path s) = str_strip (snd m))
                      (sections fw) = Some j" and jk: "j \<noteq> k" unfolding named by simp_all
    from first_index_Some[OF fj] have j: "j < length (sections fw)" by simp
    note h = mf(6)[OF m fj jk]
    from h show "slice (data (sections ?fw2 ! k)) (fst m) (fst m + 64)
                     = sha256_hexdigest (data (sections ?fw2 ! j))"
      unfolding other[OF jk] by simp
    from h show "data (sections ?fw2 ! j)
                       = slice ?out (data_offset (sections ?fw2 ! j))
                           (data_offset (sections ?fw2 ! j) + data_size (sections ?fw2 ! j))"
      unfolding other[OF jk] sl[OF j] by simp
  next
    assume "first_index (\<lambda>s. str_remove (lit ''file:'') (path s) = str_strip (snd m))
                      (sections ?fw2) = Some k"
    then have fk: "first_index (\<lambda>s. str_remove (lit ''file:'') (path s) = str_strip (snd m))
                      (sections fw) = Some k" unfolding named .
    show "slice (data (sections ?fw2 ! k)) (fst m) (fst m + 64)
                     = sha256_hexdigest
                         (take (fst m) (data (sections ?fw2 ! k))
                            @ drop (fst m) (data (sections fw ! k)))"
      using m fk by (rule mf(10))
  qed
  have c4: "length ?out = length d
      \<and> length (data (sections ?fw2 ! k)) = length (data (sections fw ! k))"
    if "data_offset (sections fw ! k) + 60 \<le> length d"
    using mf(7)[OF that] s(5) by simp
  have c5: "i < length (data (sections fw ! k))
      \<and> data (sections ?fw2 ! k) ! i = data (sections fw ! k) ! i"
    if "60 \<le> i" "i < length (data (sections ?fw2 ! k))"
      "\<forall>m\<in>set (finditer 0 (decode_ascii_replace (data (sections ?fw2 ! k)))).
          fst m \<le> i \<and> i < fst m + 64 \<longrightarrow>
          first_index (\<lambda>s. str_remove (lit ''file:'') (path s) = str_strip (snd m))
            (sections ?fw2) = None" for i
    by (rule mf(8)[OF that(1,2)]) (use that(3) in \<open>simp only: named\<close>)
  show ?thesis
    unfolding Let_def
  proof (intro exI conjI)
    show "save fw = (Inr ?out, ?fw')" by (rule s(1))
    show "map path (sections ?fw') = map path (sections fw)"
      by (simp only: secs) (rule paths)
    show "data (sections ?fw' ! k) = slice ?out (data_offset (sections fw ! k))
              (data_offset (sections fw ! k) + data_size (sections fw ! k))"
      by (simp only: secs) (rule c1)
    show "take 60 (data (sections ?fw' ! k))
            = replicate (min 60 (length (data (sections ?fw' ! k)))) 0"
      by (simp only: secs) (rule mf(3))
    show "\<forall>m\<in>set (finditer 0 (decode_ascii_replace (data (sections ?fw' ! k)))).
            60 \<le> fst m \<and> fst m + 64 \<le> length (data (sections ?fw' ! k))
             \<and> (\<forall>j. first_index (\<lambda>s. str_remove (lit ''file:'') (path s) = str_strip (snd m))
                      (sections ?fw') = Some j \<and> j \<noteq> k \<longrightarrow>
                   slice (data (sections ?fw' ! k)) (fst m) (fst m + 64)
                     = sha256_hexdigest (data (sections ?fw' ! j))
                   \<and> data (sections ?fw' ! j)
                       = slice ?out (data_offset (sections ?fw' ! j))
                           (data_offset (sections ?fw' ! j) + data_size (sections ?fw' ! j)))
             \<and> (first_index (\<lambda>s. str_remove (lit ''file:'') (path s) = str_strip (snd m))
                      (sections ?fw') = Some k \<longrightarrow>
                   slice (data (sections ?fw' ! k)) (fst m) (fst m + 64)
                     = sha256_hexdigest
                         (take (fst m) (data (sections ?fw' ! k))
                            @ drop (fst m) (data (sections fw ! k))))"
      by (simp only: secs) (rule ballI, rule c3)
    show "data_offset (sections fw ! k) + 60 \<le> length d \<longrightarrow>
            length ?out = length d
            \<and> length (data (sections ?fw' ! k)) = length (data (sections fw ! k))"
      by (simp only: secs) (rule impI, rule c4)
    show "\<forall>i. 60 \<le> i \<and> i < length (data (sections ?fw' ! k))
               \<and> (\<forall>m\<in>set (finditer 0 (decode_ascii_replace (data (sections ?fw' ! k)))).
                     fst m \<le> i \<and> i < fst m + 64 \<longrightarrow>
                     first_index (\<lambda>s. str_remove (lit ''file:'') (path s) = str_strip (snd m))
                       (sections ?fw') = None)
               \<longrightarrow> i < length (data (sections fw ! k))
                   \<and> data (sections ?fw' ! k) ! i = data (sections fw ! k) ! i"
    proof (simp only: secs, intro allI impI)
      fix i
      assume a: "60 \<le> i \<and> i < length (data (sections ?fw2 ! k))
               \<and> (\<forall>m\<in>set (finditer 0 (decode_ascii_replace (data (sections ?fw2 ! k)))).
                     fst m \<le> i \<and> i < fst m + 64 \<longrightarrow>
                     first_index (\<lambda>s. str_remove (lit ''file:'') (path s) = str_strip (snd m))
                       (sections ?fw2) = None)"
      from a have a1: "60 \<le> i" and a2: "i < length (data (sections ?fw2 ! k))"
        and a3: "\<forall>m\<in>set (finditer 0 (decode_ascii_replace (data (sections ?fw2 ! k)))).
                     fst m \<le> i \<and> i < fst m + 64 \<longrightarrow>
                     first_index (\<lambda>s. str_remove (lit ''file:'') (path s) = str_strip (snd m))
                       (sections ?fw2) = None" by (rule conjunct1, rule conjunct2[THEN conjunct1], rule conjunct2[THEN conjunct2])
      from a1 a2 a3 show "i < length (data (sections fw ! k))
                   \<and> data (sections ?fw2 ! k) ! i = data (sections fw ! k) ! i"
        by (rule c5)
    qed
  qed
qed

theorem save_fixes_first_manifest_witness:
  "parse mf_image = Inr mf_fw
   \<and> first_index (\<lambda>s. sublist (lit ''signinfo'') (path s)) (sections mf_fw) = Some 0
   \<and> (\<exists>out fw'. save mf_fw = (Inr out, fw')
        \<and> length out = length mf_image
        \<and> length (data (sections fw' ! 0)) = 210
        \<and> take 60 (data (sections fw' ! 0)) = replicate 60 0
        \<and> finditer 0 (decode_ascii_replace (data (sections fw' ! 0)))
            = [(60, lit ''/signinfo2''), (136, lit ''/signinfo'')]
        \<and> first_index (\<lambda>s. str_remove (lit ''file:'') (path s) = str_strip (lit ''/signinfo2''))
             (sections fw') = Some 1
        \<and> data (sections fw' ! 1) = [0x68, 0x69]
        \<and> slice (data (sections fw' ! 0)) 60 124 = sha256_hexdigest [0x68, 0x69]
        \<and> first_index (\<lambda>s. str_remove (lit ''file:'') (path s) = str_strip (lit ''/signinfo''))
             (sections fw') = Some 0
        \<and> slice (data (sections fw' ! 0)) 136 200
            = sha256_hexdigest (take 136 (data (sections fw' ! 0)) @ mf_line2))"
proof -
  from save_fixes_first_manifest[OF mf_parse mf_first, unfolded Let_def]
  obtain out fw' where s: "save mf_fw = (Inr out, fw')"
    and b: "map path (sections fw') = map path (sections mf_fw)
       \<and> data (sections fw' ! 0) = slice out (data_offset (sections mf_fw ! 0))
             (data_offset (sections mf_fw ! 0) + data_size (sections mf_fw ! 0))
       \<and> take 60 (data (sections fw' ! 0))
           = replicate (min 60 (length (data (sections fw' ! 0)))) 0
       \<and> (\<forall>m\<in>set (finditer 0 (decode_ascii_replace (data (sections fw' ! 0)))).
             60 \<le> fst m \<and> fst m + 64 \<le> length (data (sections fw' ! 0))
             \<and> (\<forall>j. first_index
                       (\<lambda>s. str_remove (lit ''file:'') (path s) = str_strip (snd m))
                       (sections fw') = Some j \<and> j \<noteq> 0 \<longrightarrow>
                   slice (data (sections fw' ! 0)) (fst m) (fst m + 64)
                     = sha256_hexdigest (data (sections fw' ! j))
                   \<and> data (sections fw' ! j)
                       = slice out (data_offset (sections fw' ! j))
                           (data_offset (sections fw' ! j) + data_size (sections fw' ! j)))
             \<and> (first_index
                       (\<lambda>s. str_remove (lit ''file:'') (path s) = str_strip (snd m))
                       (sections fw') = Some 0 \<longrightarrow>
                   slice (data (sections fw' ! 0)) (fst m) (fst m + 64)
                     = sha256_hexdigest
                         (take (fst m) (data (sections fw' ! 0))
                            @ drop (fst m) (data (sections mf_fw ! 0)))))
       \<and> (data_offset (sections mf_fw ! 0) + 60 \<le> length mf_image \<longrightarrow>
             length out = length mf_image
             \<and> length (data (sections fw' ! 0)) = length (data (sections mf_fw ! 0)))
       \<and> (\<forall>i. 60 \<le> i \<and> i < length (data (sections fw' ! 0))
               \<and> (\<forall>m\<in>set (finditer 0 (decode_ascii_replace (data (sections fw' ! 0)))).
                     fst m \<le> i \<and> i < fst m + 64 \<longrightarrow>
                     first_index (\<lambda>s. str_remove (lit ''file:'') (path s) = str_strip (snd m))
                       (sections fw') = None)
               \<longrightarrow> i < length (data (sections mf_fw ! 0))
                   \<and> data (sections fw' ! 0) ! i = data (sections mf_fw ! 0) ! i)"
    by (elim exE conjE) (rule that, assumption, intro conjI; assumption)
  note paths = b[THEN conjunct1]
  note zero = b[THEN conjunct2, THEN conjunct2, THEN conjunct1]
  note hash = b[THEN conjunct2, THEN conjunct2, THEN conjunct2, THEN conjunct1]
  note len = b[THEN conjunct2, THEN conjunct2, THEN conjunct2, THEN conjunct2, THEN conjunct1]
  have secs: "sections fw' = sections (fix_signinfo mf_fw)" using save_sections[OF s] by simp
  from len have l: "length out = length mf_image" "length (data (sections fw' ! 0)) = 210"
    by (simp_all add: mf_fw_simps mf_sec0_def mf_lengths)
  from zero l(2) have z: "take 60 (data (sections fw' ! 0)) = replicate 60 0" by simp
  have ms: "finditer 0 (decode_ascii_replace (data (sections fw' ! 0)))
              = [(60, lit ''/signinfo2''), (136, lit ''/signinfo'')]"
    unfolding secs by (rule mf_matches)
  have nm: "first_index (\<lambda>s. str_remove (lit ''file:'') (path s) = str_strip (lit ''/signinfo2''))
             (sections fw') = Some 1"
    using first_index_paths[OF paths,
        of "\<lambda>p. str_remove (lit ''file:'') p = str_strip (lit ''/signinfo2'')"] mf_named(1)
    by simp
  have nm0: "first_index (\<lambda>s. str_remove (lit ''file:'') (path s) = str_strip (lit ''/signinfo''))
             (sections fw') = Some 0"
    using first_index_paths[OF paths,
        of "\<lambda>p. str_remove (lit ''file:'') p = str_strip (lit ''/signinfo'')"] mf_named(2)
    by simp
  have d1: "data (sections fw' ! 1) = [0x68, 0x69]"
    unfolding secs using fix_signinfo_manifest(9)[OF mf_parse mf_first, of 1]
    by (simp add: mf_fw_simps mf_sec1_def)
  have mem: "(60, lit ''/signinfo2'')
      \<in> set (finditer 0 (decode_ascii_replace (data (sections fw' ! 0))))"
    and mem2: "(136, lit ''/signinfo'')
      \<in> set (finditer 0 (decode_ascii_replace (data (sections fw' ! 0))))"
    unfolding ms by simp_all
  note h1 = bspec[OF hash mem, THEN conjunct2, THEN conjunct2, THEN conjunct1, rule_format, of 1]
  from h1 nm have "slice (data (sections fw' ! 0)) 60 (60 + 64)
                     = sha256_hexdigest (data (sections fw' ! 1))" by simp
  with d1 have h: "slice (data (sections fw' ! 0)) 60 124 = sha256_hexdigest [0x68, 0x69]" by simp
  note h2 = bspec[OF hash mem2, THEN conjunct2, THEN conjunct2, THEN conjunct2, rule_format]
  have old: "drop 136 (data (sections mf_fw ! 0)) = mf_line2"
    by (simp add: mf_fw_simps mf_sec0_def mf_lengths)
  from h2 nm0 have "slice (data (sections fw' ! 0)) 136 (136 + 64)
      = sha256_hexdigest (take 136 (data (sections fw' ! 0)) @ drop 136 (data (sections mf_fw ! 0)))"
    by simp
  then have h': "slice (data (sections fw' ! 0)) 136 200
            = sha256_hexdigest (take 136 (data (sections fw' ! 0)) @ mf_line2)"
    unfolding old by simp
  from s l z ms nm d1 h nm0 h' have "\<exists>out fw'. save mf_fw = (Inr out, fw')
        \<and> length out = length mf_image
        \<and> length (data (sections fw' ! 0)) = 210
        \<and> take 60 (data (sections fw' ! 0)) = replicate 60 0
        \<and> finditer 0 (decode_ascii_replace (data (sections fw' ! 0)))
            = [(60, lit ''/signinfo2''), (136, lit ''/signinfo'')]
        \<and> first_index (\<lambda>s. str_remove (lit ''file:'') (path s) = str_strip (lit ''/signinfo2''))
             (sections fw') = Some 1
        \<and> data (sections fw' ! 1) = [0x68, 0x69]
        \<and> slice (data (sections fw' ! 0)) 60 124 = sha256_hexdigest [0x68, 0x69]
        \<and> first_index (\<lambda>s. str_remove (lit ''file:'') (path s) = str_strip (lit ''/signinfo''))
             (sections fw') = Some 0
        \<and> slice (data (sections fw' ! 0)) 136 200
            = sha256_hexdigest (take 136 (data (sections fw' ! 0)) @ mf_line2)" by blast
  with mf_parse mf_first show ?thesis by blast
qed

end
